theory Spec2Isabelle
  imports Main "HOL-Library.Sublist"
begin

section \<open>The icon optimisation script\<close>

text \<open>
  A shallow embedding of the SVG optimisation script (\<^verbatim>\<open>optimize.ts\<close>): the functions
  \<^verbatim>\<open>ensureDir\<close>, \<^verbatim>\<open>optimizeSvg\<close>, \<^verbatim>\<open>getSvgFiles\<close> and \<^verbatim>\<open>processFiles\<close>, over an
  explicit model of what the script calls: Node's \<^verbatim>\<open>path\<close> and \<^verbatim>\<open>fs/promises\<close> modules,
  \<^verbatim>\<open>JSON.stringify\<close>, the console and the \<^verbatim>\<open>svgo\<close> engine.

  Strings are \<^typ>\<open>string\<close>; a character stands for one code unit. The script only
  inspects the ASCII characters \<^verbatim>\<open>/\<close>, \<^verbatim>\<open>.\<close> and the letters of \<^verbatim>\<open>svg\<close>, so every other
  character is carried along unchanged.
\<close>

subsection \<open>Strings\<close>

text \<open>
  \<^verbatim>\<open>String.prototype.toLowerCase\<close>, on the ASCII letters. No other character has one of
  \<^verbatim>\<open>.\<close>, \<^verbatim>\<open>s\<close>, \<^verbatim>\<open>v\<close>, \<^verbatim>\<open>g\<close> as its lower case, so the extension test of
  \<^verbatim>\<open>getSvgFiles\<close> does not depend on what happens to the others.
\<close>

definition toLowerCase_char :: "char \<Rightarrow> char" where
  "toLowerCase_char c =
     (case map_of (zip ''ABCDEFGHIJKLMNOPQRSTUVWXYZ'' ''abcdefghijklmnopqrstuvwxyz'') c of
        None \<Rightarrow> c
      | Some l \<Rightarrow> l)"

definition toLowerCase :: "string \<Rightarrow> string" where
  "toLowerCase s = map toLowerCase_char s"

text \<open>\<^verbatim>\<open>String.prototype.endsWith\<close> and \<^verbatim>\<open>String.prototype.slice\<close> (non-negative bounds).\<close>

definition endsWith :: "string \<Rightarrow> string \<Rightarrow> bool" where
  "endsWith s searchString =
     (length searchString \<le> length s \<and> drop (length s - length searchString) s = searchString)"

definition slice :: "string \<Rightarrow> nat \<Rightarrow> nat \<Rightarrow> string" where
  "slice s from to = take (to - from) (drop from s)"

subsection \<open>Node's \<^verbatim>\<open>path\<close> module (POSIX flavour)\<close>

text \<open>
  \<^verbatim>\<open>path.basename(path, suffix)\<close> follows Node's implementation: one loop from the last
  character down to the first, with the loop variables \<^verbatim>\<open>start\<close>, \<^verbatim>\<open>end\<close>,
  \<^verbatim>\<open>matchedSlash\<close>, \<^verbatim>\<open>extIdx\<close> and \<^verbatim>\<open>firstNonSlashEnd\<close>, where \<^verbatim>\<open>-1\<close> means
  ``not set''. The loop functions take \<open>i + 1\<close> for the loop variable \<open>i\<close>, so that
  \<open>0\<close> is the loop's exit; the \<^verbatim>\<open>break\<close> is the branch that does not recurse.
  The suffix is compared character by character, hence case-sensitively.
\<close>

definition CHAR_FORWARD_SLASH :: char where
  "CHAR_FORWARD_SLASH = CHR ''/''"

record scan =
  start :: nat
  end' :: int
  matchedSlash :: bool
  extIdx :: int
  firstNonSlashEnd :: int

fun basename_suffix_loop :: "string \<Rightarrow> string \<Rightarrow> nat \<Rightarrow> scan \<Rightarrow> scan" where
  "basename_suffix_loop path suffix' 0 s = s"
| "basename_suffix_loop path suffix' (Suc i) s =
    (let code = path ! i in
     if code = CHAR_FORWARD_SLASH then
       (if \<not> matchedSlash s then s\<lparr>start := i + 1\<rparr>
        else basename_suffix_loop path suffix' i s)
     else
       (let s1 = (if firstNonSlashEnd s = -1
                  then s\<lparr>matchedSlash := False, firstNonSlashEnd := int i + 1\<rparr> else s);
            s2 = (if extIdx s1 \<ge> 0 then
                    (if code = suffix' ! nat (extIdx s1) then
                       (if extIdx s1 - 1 = -1
                        then s1\<lparr>extIdx := extIdx s1 - 1, end' := int i\<rparr>
                        else s1\<lparr>extIdx := extIdx s1 - 1\<rparr>)
                     else s1\<lparr>extIdx := -1, end' := firstNonSlashEnd s1\<rparr>)
                  else s1)
        in basename_suffix_loop path suffix' i s2))"

fun basename_loop :: "string \<Rightarrow> nat \<Rightarrow> scan \<Rightarrow> scan" where
  "basename_loop path 0 s = s"
| "basename_loop path (Suc i) s =
    (if path ! i = CHAR_FORWARD_SLASH then
       (if \<not> matchedSlash s then s\<lparr>start := i + 1\<rparr>
        else basename_loop path i s)
     else if end' s = -1
       then basename_loop path i (s\<lparr>matchedSlash := False, end' := int i + 1\<rparr>)
       else basename_loop path i s)"

text \<open>The optional parameter \<^verbatim>\<open>suffix\<close> is \<open>None\<close> when the caller leaves it out.\<close>

definition basename :: "string \<Rightarrow> string option \<Rightarrow> string" where
  "basename path suffix' =
    (let s0 = \<lparr>start = 0, end' = -1, matchedSlash = True, extIdx = -1, firstNonSlashEnd = -1\<rparr>;
         plain = (let s = basename_loop path (length path) s0
                  in if end' s = -1 then [] else slice path (start s) (nat (end' s)))
     in case suffix' of
       None \<Rightarrow> plain
     | Some sfx \<Rightarrow>
         if length sfx > 0 \<and> length sfx \<le> length path then
           (if sfx = path then []
            else
              let s = basename_suffix_loop path sfx (length path)
                        (s0\<lparr>extIdx := int (length sfx) - 1\<rparr>);
                  e = (if int (start s) = end' s then firstNonSlashEnd s
                       else if end' s = -1 then int (length path)
                       else end' s)
              in slice path (start s) (nat e))
         else plain)"

text \<open>
  \<^verbatim>\<open>path.resolve(dir, name)\<close> and \<^verbatim>\<open>path.join(dir, name)\<close>, as the script calls them:
  \<open>dir\<close> is an absolute, normalised directory (the working directory or a directory
  below it) and \<open>name\<close> is a single path segment (\<^verbatim>\<open>raw\<close>, \<^verbatim>\<open>optimized\<close>,
  \<^verbatim>\<open>manifest.json\<close>, the name of a directory entry or a base name). On such arguments
  both functions put one separator between the two.
\<close>

definition path_resolve :: "string \<Rightarrow> string \<Rightarrow> string" where
  "path_resolve dir name = (if dir = ''/'' then dir @ name else dir @ ''/'' @ name)"

definition path_join :: "string \<Rightarrow> string \<Rightarrow> string" where
  "path_join dir name = (if dir = ''/'' then dir @ name else dir @ ''/'' @ name)"

subsection \<open>JSON values and \<^verbatim>\<open>JSON.stringify\<close>\<close>

text \<open>
  The values the script builds: strings, arrays and objects (an object keeps its
  properties in insertion order). \<^verbatim>\<open>JSON.stringify(value, null, space)\<close> is the
  ECMAScript algorithm on them: \<open>QuoteJSONString\<close> escapes the quote, the backslash
  and the control characters; \<open>SerializeJSONProperty\<close> carries the gap and the current
  indentation.
\<close>

datatype json = JString string | JArray "json list" | JObject "(string \<times> json) list"

definition hex_digit :: "nat \<Rightarrow> char" where
  "hex_digit n = (if n < 10 then char_of (48 + n) else char_of (87 + n))"

definition quote_char :: "char \<Rightarrow> string" where
  "quote_char c =
     (let n = (of_char c :: nat) in
      if c = CHR 0x22 then [CHR 0x5C, CHR 0x22]
      else if c = CHR 0x5C then [CHR 0x5C, CHR 0x5C]
      else if n = 8 then [CHR 0x5C, CHR ''b'']
      else if n = 9 then [CHR 0x5C, CHR ''t'']
      else if n = 10 then [CHR 0x5C, CHR ''n'']
      else if n = 12 then [CHR 0x5C, CHR ''f'']
      else if n = 13 then [CHR 0x5C, CHR ''r'']
      else if n < 32 then
        [CHR 0x5C, CHR ''u'', CHR ''0'', CHR ''0'', hex_digit (n div 16), hex_digit (n mod 16)]
      else [c])"

definition QuoteJSONString :: "string \<Rightarrow> string" where
  "QuoteJSONString s = [CHR 0x22] @ concat (map quote_char s) @ [CHR 0x22]"

fun join :: "string \<Rightarrow> string list \<Rightarrow> string" where
  "join sep [] = []"
| "join sep [x] = x"
| "join sep (x # y # ys) = x @ sep @ join sep (y # ys)"

fun SerializeJSONProperty :: "string \<Rightarrow> string \<Rightarrow> json \<Rightarrow> string" where
  "SerializeJSONProperty gap indent (JString s) = QuoteJSONString s"
| "SerializeJSONProperty gap indent (JArray elems) =
     (let stepback = indent; indent' = indent @ gap;
          partial = map (SerializeJSONProperty gap indent') elems
      in if partial = [] then ''[]''
         else if gap = [] then ''['' @ join '','' partial @ '']''
         else ''['' @ [CHR 0x0A] @ indent' @ join ('','' @ [CHR 0x0A] @ indent') partial
              @ [CHR 0x0A] @ stepback @ '']'')"
| "SerializeJSONProperty gap indent (JObject props) =
     (let stepback = indent; indent' = indent @ gap;
          partial = map (\<lambda>(k, v). QuoteJSONString k @ '':''
                           @ (if gap = [] then [] else '' '')
                           @ SerializeJSONProperty gap indent' v) props
      in if partial = [] then ''{}''
         else if gap = [] then ''{'' @ join '','' partial @ ''}''
         else ''{'' @ [CHR 0x0A] @ indent' @ join ('','' @ [CHR 0x0A] @ indent') partial
              @ [CHR 0x0A] @ stepback @ ''}'')"

definition JSON_stringify :: "json \<Rightarrow> nat \<Rightarrow> string" where
  "JSON_stringify v space = SerializeJSONProperty (replicate (min 10 space) CHR '' '') [] v"

subsection \<open>The transform configuration\<close>

text \<open>
  An \<^verbatim>\<open>svgo\<close> plugin entry is a bare name or an object with a name and parameters.
  \<open>optimizeSvg_config\<close> is the \<^verbatim>\<open>config\<close> constant of \<^verbatim>\<open>optimizeSvg\<close>.
\<close>

datatype plugin = PluginName string | PluginConfig string "(string \<times> json) list"

record config =
  path :: string
  multipass :: bool
  plugins :: "plugin list"

definition optimizeSvg_config :: "string \<Rightarrow> config" where
  "optimizeSvg_config filename =
     \<lparr>path = filename,
      multipass = True,
      plugins =
        [PluginConfig ''preset-default'' [(''overrides'', JObject [])],
         PluginConfig ''prefixIds''
           [(''prefix'', JString (basename filename (Some ''.svg'') @ ''-''))],
         PluginName ''removeXMLNS'',
         PluginName ''sortAttrs'',
         PluginConfig ''addAttributesToSVGElement''
           [(''attributes'',
             JArray [JObject [(''aria-hidden'', JString ''true'')],
                     JObject [(''width'', JString ''24'')],
                     JObject [(''height'', JString ''24'')],
                     JObject [(''fill'', JString ''currentColor'')]])]]\<rparr>"

fun plugin_name :: "plugin \<Rightarrow> string" where
  "plugin_name (PluginName n) = n"
| "plugin_name (PluginConfig n ps) = n"

fun plugin_params :: "plugin \<Rightarrow> (string \<times> json) list" where
  "plugin_params (PluginName n) = []"
| "plugin_params (PluginConfig n ps) = ps"

subsection \<open>The environment: file system, engine, console\<close>

text \<open>
  What a call can throw: a file-system error with its code, or whatever the engine
  throws (its message).
\<close>

datatype errno = ENOENT | EACCES | ENOTDIR | EEXIST | ENOSPC | EIO

datatype error = FsError errno | TransformError string

text \<open>
  The source tree as \<^verbatim>\<open>fs.readdir(dir, {withFileTypes: true})\<close> answers for it: a
  directory's listing is its entries in the order returned, or the error thrown. An
  entry is a directory (\<^verbatim>\<open>isDirectory()\<close>) or anything else (\<open>File\<close>).
\<close>

datatype dirent = File string | Directory string listing
and listing = Entries "dirent list" | ReaddirError errno

text \<open>
  The surroundings of one run, which the script does not change: the working
  directory, the source tree, what reading a source file yields, the engine
  (\<open>Inl\<close> for a thrown message, \<open>Inr\<close> for \<^verbatim>\<open>result.data\<close>), and which probes, directory
  creations and writes fail.
\<close>

record env =
  cwd :: string
  raw_tree :: listing
  contents :: "string \<Rightarrow> errno + string"
  engine :: "string \<Rightarrow> config \<Rightarrow> string + string"
  access_fault :: "string \<Rightarrow> errno option"
  mkdir_fault :: "string \<Rightarrow> errno option"
  write_fault :: "string \<Rightarrow> errno option"

text \<open>The lines of \<^verbatim>\<open>console.log\<close>, by the template that prints them.\<close>

datatype console =
    Found nat \<comment> \<open>\<^verbatim>\<open>Found ${n} SVG files to optimize\<close>\<close>
  | Optimized string \<comment> \<open>one line per file, with the file's base name\<close>
  | Complete nat \<comment> \<open>\<^verbatim>\<open>Optimization complete! ${n} SVGs processed.\<close>\<close>
  | ManifestCreated string \<comment> \<open>\<^verbatim>\<open>Icon manifest created at ${manifestPath}\<close>\<close>

text \<open>
  What a run does, in order: the calls it makes, whether they succeed or not.
  \<open>Readdir\<close> is the call \<^verbatim>\<open>getSvgFiles(RAW_DIR)\<close> as a whole; the nested \<^verbatim>\<open>readdir\<close>
  calls only read and are not recorded one by one.
\<close>

datatype event =
    Access string
  | Mkdir string
  | Readdir string
  | ReadFile string
  | Optimize string
  | WriteFile string string
  | Log console
  | ConsoleError error
  | Exit nat

text \<open>
  The state a run changes: the directories and files of the destination side (by
  absolute path) and the trace of events so far.
\<close>

record world =
  dirs :: "string set"
  disk :: "string \<rightharpoonup> string"
  trace :: "event list"

definition emit :: "event \<Rightarrow> world \<Rightarrow> world" where
  "emit e w = w\<lparr>trace := trace w @ [e]\<rparr>"

definition console_log :: "console \<Rightarrow> world \<Rightarrow> world" where
  "console_log line w = emit (Log line) w"

text \<open>
  \<^verbatim>\<open>fs.access(p)\<close> rejects when nothing exists at \<open>p\<close>, and may reject for another
  reason (permissions) when something does. \<^verbatim>\<open>fs.mkdir(p, {recursive: true})\<close> creates
  the directory unless it fails. \<^verbatim>\<open>fs.writeFile\<close> creates or replaces the file unless
  it fails; a failed write is taken to leave the file as it was. The source tree lies
  outside the destination directory, so no write changes what is read.
\<close>

definition fs_access :: "env \<Rightarrow> string \<Rightarrow> world \<Rightarrow> (error + unit) \<times> world" where
  "fs_access env p w =
     (let w1 = emit (Access p) w in
      if p \<in> dirs w \<or> disk w p \<noteq> None then
        (case access_fault env p of
           None \<Rightarrow> (Inr (), w1)
         | Some e \<Rightarrow> (Inl (FsError e), w1))
      else (Inl (FsError ENOENT), w1))"

definition fs_mkdir :: "env \<Rightarrow> string \<Rightarrow> world \<Rightarrow> (error + unit) \<times> world" where
  "fs_mkdir env p w =
     (let w1 = emit (Mkdir p) w in
      case mkdir_fault env p of
        None \<Rightarrow> (Inr (), w1\<lparr>dirs := insert p (dirs w1)\<rparr>)
      | Some e \<Rightarrow> (Inl (FsError e), w1))"

definition fs_readFile :: "env \<Rightarrow> string \<Rightarrow> world \<Rightarrow> (error + string) \<times> world" where
  "fs_readFile env p w =
     (let w1 = emit (ReadFile p) w in
      case contents env p of
        Inl e \<Rightarrow> (Inl (FsError e), w1)
      | Inr content \<Rightarrow> (Inr content, w1))"

definition fs_writeFile :: "env \<Rightarrow> string \<Rightarrow> string \<Rightarrow> world \<Rightarrow> (error + unit) \<times> world" where
  "fs_writeFile env p data w =
     (let w1 = emit (WriteFile p data) w in
      case write_fault env p of
        None \<Rightarrow> (Inr (), w1\<lparr>disk := (disk w1)(p \<mapsto> data)\<rparr>)
      | Some e \<Rightarrow> (Inl (FsError e), w1))"

subsection \<open>The script\<close>

definition RAW_DIR :: "env \<Rightarrow> string" where
  "RAW_DIR env = path_resolve (cwd env) ''raw''"

definition OPTIMIZED_DIR :: "env \<Rightarrow> string" where
  "OPTIMIZED_DIR env = path_resolve (cwd env) ''optimized''"

text \<open>\<^verbatim>\<open>ensureDir\<close>: the \<^verbatim>\<open>catch\<close> has no binding, so every rejection of the probe ends in \<^verbatim>\<open>mkdir\<close>.\<close>

definition ensureDir :: "env \<Rightarrow> string \<Rightarrow> world \<Rightarrow> (error + unit) \<times> world" where
  "ensureDir env dir w =
     (case fs_access env dir w of
        (Inr u, w1) \<Rightarrow> (Inr u, w1)
      | (Inl e, w1) \<Rightarrow> fs_mkdir env dir w1)"

text \<open>\<^verbatim>\<open>optimizeSvg\<close>: the engine is called with the content and the configuration.\<close>

definition optimizeSvg :: "env \<Rightarrow> string \<Rightarrow> string \<Rightarrow> error + string" where
  "optimizeSvg env svgContent filename =
     (case engine env svgContent (optimizeSvg_config filename) of
        Inl msg \<Rightarrow> Inl (TransformError msg)
      | Inr data \<Rightarrow> Inr data)"

text \<open>
  \<^verbatim>\<open>Promise.all\<close> over results that are already settled: the list of values, or a
  rejection when one of them is rejected (the first in list order stands for the first
  to reject).
\<close>

fun Promise_all :: "('e + 'a) list \<Rightarrow> 'e + 'a list" where
  "Promise_all [] = Inr []"
| "Promise_all (Inl e # rs) = Inl e"
| "Promise_all (Inr x # rs) =
     (case Promise_all rs of Inl e \<Rightarrow> Inl e | Inr xs \<Rightarrow> Inr (x # xs))"

text \<open>
  \<^verbatim>\<open>getSvgFiles\<close>, with the listing that \<^verbatim>\<open>readdir\<close> returns for \<open>dir\<close>; \<open>visit\<close> is the
  callback of \<^verbatim>\<open>entries.map\<close>. A file contributes its path, which
  \<^verbatim>\<open>Array.prototype.concat\<close> appends as one element; a directory contributes the list of
  the recursive call, which it appends element by element.
\<close>

fun getSvgFiles :: "string \<Rightarrow> listing \<Rightarrow> errno + string list"
and visit :: "string \<Rightarrow> dirent \<Rightarrow> errno + string list" where
  "getSvgFiles dir (ReaddirError e) = Inl e"
| "getSvgFiles dir (Entries entries) =
     (case Promise_all (map (visit dir) entries) of
        Inl e \<Rightarrow> Inl e
      | Inr files \<Rightarrow>
          Inr (filter (\<lambda>file. endsWith (toLowerCase file) ''.svg'') (concat files)))"
| "visit dir (File name) = Inr [path_resolve dir name]"
| "visit dir (Directory name l) = getSvgFiles (path_resolve dir name) l"

text \<open>The \<^verbatim>\<open>for\<close> loop of \<^verbatim>\<open>processFiles\<close> over \<^verbatim>\<open>allSvgFiles\<close>.\<close>

fun process_loop :: "env \<Rightarrow> string list \<Rightarrow> world \<Rightarrow> (error + unit) \<times> world" where
  "process_loop env [] w = (Inr (), w)"
| "process_loop env (filePath # rest) w =
     (let file = basename filePath None in
      case fs_readFile env filePath w of
        (Inl e, w1) \<Rightarrow> (Inl e, w1)
      | (Inr content, w1) \<Rightarrow>
          (case optimizeSvg env content file of
             Inl e \<Rightarrow> (Inl e, emit (Optimize file) w1)
           | Inr optimizedSvg \<Rightarrow>
               (let outputPath = path_join (OPTIMIZED_DIR env) file in
                case fs_writeFile env outputPath optimizedSvg (emit (Optimize file) w1) of
                  (Inl e, w2) \<Rightarrow> (Inl e, w2)
                | (Inr u, w2) \<Rightarrow> process_loop env rest (console_log (Optimized file) w2))))"

definition iconNames :: "string list \<Rightarrow> string list" where
  "iconNames allSvgFiles = map (\<lambda>file. basename file (Some ''.svg'')) allSvgFiles"

definition manifestPath :: "env \<Rightarrow> string" where
  "manifestPath env = path_join (OPTIMIZED_DIR env) ''manifest.json''"

definition manifest :: "string list \<Rightarrow> string" where
  "manifest allSvgFiles =
     JSON_stringify (JObject [(''icons'', JArray (map JString (iconNames allSvgFiles)))]) 2"

text \<open>The \<^verbatim>\<open>try\<close> block of \<^verbatim>\<open>processFiles\<close>: the first error ends it.\<close>

definition processFiles_try :: "env \<Rightarrow> world \<Rightarrow> (error + unit) \<times> world" where
  "processFiles_try env w =
     (case ensureDir env (OPTIMIZED_DIR env) w of
        (Inl e, w1) \<Rightarrow> (Inl e, w1)
      | (Inr u, w1) \<Rightarrow>
          (case getSvgFiles (RAW_DIR env) (raw_tree env) of
             Inl e \<Rightarrow> (Inl (FsError e), emit (Readdir (RAW_DIR env)) w1)
           | Inr allSvgFiles \<Rightarrow>
               (case process_loop env allSvgFiles
                       (console_log (Found (length allSvgFiles))
                          (emit (Readdir (RAW_DIR env)) w1)) of
                  (Inl e, w2) \<Rightarrow> (Inl e, w2)
                | (Inr u, w2) \<Rightarrow>
                    (case fs_writeFile env (manifestPath env) (manifest allSvgFiles)
                            (console_log (Complete (length allSvgFiles)) w2) of
                       (Inl e, w3) \<Rightarrow> (Inl e, w3)
                     | (Inr u, w3) \<Rightarrow>
                         (Inr (), console_log (ManifestCreated (manifestPath env)) w3)))))"

text \<open>
  \<^verbatim>\<open>processFiles\<close>: the \<^verbatim>\<open>catch\<close> prints the error and calls \<^verbatim>\<open>process.exit(1)\<close>;
  otherwise the process ends with exit code 0. The result is the exit code and the
  final state.
\<close>

definition processFiles :: "env \<Rightarrow> world \<Rightarrow> nat \<times> world" where
  "processFiles env w =
     (case processFiles_try env w of
        (Inr u, w') \<Rightarrow> (0, w')
      | (Inl e, w') \<Rightarrow> (1, emit (Exit 1) (emit (ConsoleError e) w')))"

subsection \<open>Observations on a run\<close>

text \<open>The events a run appended, and the writes among a list of events.\<close>

definition new_events :: "world \<Rightarrow> world \<Rightarrow> event list" where
  "new_events w w' = drop (length (trace w)) (trace w')"

fun writes :: "event list \<Rightarrow> (string \<times> string) list" where
  "writes [] = []"
| "writes (WriteFile p d # evs) = (p, d) # writes evs"
| "writes (e # evs) = writes evs"

section \<open>Notions used to state the properties\<close>

subsection \<open>Names and discovery\<close>

text \<open>
  What removing a suffix means on a single path segment: the segment without the
  suffix when it ends with it, the segment itself otherwise.
\<close>

definition strip_suffix :: "string \<Rightarrow> string \<Rightarrow> string" where
  "strip_suffix name sfx =
     (if sfx \<noteq> [] \<and> suffix sfx name then take (length name - length sfx) name else name)"

text \<open>
  A name whose last four characters are \<^verbatim>\<open>.svg\<close> in any mix of upper and lower case.
\<close>

definition svg_name :: "string \<Rightarrow> bool" where
  "svg_name name =
     (case rev name of
        c # b # a # d # stem \<Rightarrow>
          d = CHR ''.'' \<and> a \<in> {CHR ''s'', CHR ''S''} \<and> b \<in> {CHR ''v'', CHR ''V''}
          \<and> c \<in> {CHR ''g'', CHR ''G''}
      | _ \<Rightarrow> False)"

text \<open>
  The plain depth-first enumeration of a tree: the path of every entry that is not a
  directory, in listing order, a directory's entries in place of the directory.
\<close>

fun walk :: "string \<Rightarrow> listing \<Rightarrow> errno + string list"
and walk_entry :: "string \<Rightarrow> dirent \<Rightarrow> errno + string list" where
  "walk dir (ReaddirError e) = Inl e"
| "walk dir (Entries entries) =
     (case Promise_all (map (walk_entry dir) entries) of
        Inl e \<Rightarrow> Inl e
      | Inr found \<Rightarrow> Inr (concat found))"
| "walk_entry dir (File name) = Inr [path_resolve dir name]"
| "walk_entry dir (Directory name l) = walk (path_resolve dir name) l"

text \<open>
  The directory walker in the words of the specification (section 4.1), to be compared
  with \<open>getSvgFiles\<close>: traverse depth first; for a directory, recurse and put its
  results in the parent's list at the directory's place; for a file, include it only
  if the extension of its name is \<^verbatim>\<open>.svg\<close> in any case; a traversal failure is fatal.
\<close>

fun discover :: "string \<Rightarrow> listing \<Rightarrow> errno + string list"
and discover_entry :: "string \<Rightarrow> dirent \<Rightarrow> errno + string list" where
  "discover dir (ReaddirError e) = Inl e"
| "discover dir (Entries entries) =
     (case Promise_all (map (discover_entry dir) entries) of
        Inl e \<Rightarrow> Inl e
      | Inr found \<Rightarrow> Inr (concat found))"
| "discover_entry dir (File name) = Inr (if svg_name name then [path_resolve dir name] else [])"
| "discover_entry dir (Directory name l) = discover (path_resolve dir name) l"

text \<open>The list a run works on: what discovery returns, nothing when it fails.\<close>

definition discovered :: "env \<Rightarrow> string list" where
  "discovered env =
     (case getSvgFiles (RAW_DIR env) (raw_tree env) of
        Inl e \<Rightarrow> []
      | Inr allSvgFiles \<Rightarrow> allSvgFiles)"

subsection \<open>The steps of a run\<close>

text \<open>
  Whether the probe of \<open>ensureDir\<close> succeeds, whether \<open>ensureDir\<close> does, and what it
  leaves behind: its events and the directories that exist afterwards.
\<close>

definition probe_ok :: "env \<Rightarrow> string \<Rightarrow> world \<Rightarrow> bool" where
  "probe_ok env p w = ((p \<in> dirs w \<or> disk w p \<noteq> None) \<and> access_fault env p = None)"

definition ensure_ok :: "env \<Rightarrow> world \<Rightarrow> bool" where
  "ensure_ok env w =
     (probe_ok env (OPTIMIZED_DIR env) w \<or> mkdir_fault env (OPTIMIZED_DIR env) = None)"

definition ensure_events :: "env \<Rightarrow> world \<Rightarrow> event list" where
  "ensure_events env w =
     (if probe_ok env (OPTIMIZED_DIR env) w then [Access (OPTIMIZED_DIR env)]
      else [Access (OPTIMIZED_DIR env), Mkdir (OPTIMIZED_DIR env)])"

definition ensure_dirs :: "env \<Rightarrow> world \<Rightarrow> string set" where
  "ensure_dirs env w =
     (if probe_ok env (OPTIMIZED_DIR env) w \<or> mkdir_fault env (OPTIMIZED_DIR env) \<noteq> None
      then dirs w else insert (OPTIMIZED_DIR env) (dirs w))"

text \<open>
  One file of the loop: where it is written, what reading and optimising it yields,
  whether all three calls succeed, and the four events of a successful iteration.
\<close>

definition outputPath :: "env \<Rightarrow> string \<Rightarrow> string" where
  "outputPath env filePath = path_join (OPTIMIZED_DIR env) (basename filePath None)"

definition transformed :: "env \<Rightarrow> string \<Rightarrow> error + string" where
  "transformed env filePath =
     (case contents env filePath of
        Inl e \<Rightarrow> Inl (FsError e)
      | Inr content \<Rightarrow> optimizeSvg env content (basename filePath None))"

definition optimizedSvg_of :: "env \<Rightarrow> string \<Rightarrow> string" where
  "optimizedSvg_of env filePath =
     (case transformed env filePath of Inl e \<Rightarrow> [] | Inr optimizedSvg \<Rightarrow> optimizedSvg)"

definition file_ok :: "env \<Rightarrow> string \<Rightarrow> bool" where
  "file_ok env filePath =
     (\<not> isl (transformed env filePath) \<and> write_fault env (outputPath env filePath) = None)"

definition file_events :: "env \<Rightarrow> string \<Rightarrow> string \<Rightarrow> event list" where
  "file_events env filePath optimizedSvg =
     [ReadFile filePath, Optimize (basename filePath None),
      WriteFile (outputPath env filePath) optimizedSvg,
      Log (Optimized (basename filePath None))]"

text \<open>The events of a loop in which every file succeeds, and what it leaves on disk.\<close>

definition loop_events :: "env \<Rightarrow> string list \<Rightarrow> event list" where
  "loop_events env allSvgFiles =
     concat (map (\<lambda>filePath. file_events env filePath (optimizedSvg_of env filePath)) allSvgFiles)"

definition loop_disk :: "env \<Rightarrow> string list \<Rightarrow> (string \<rightharpoonup> string) \<Rightarrow> (string \<rightharpoonup> string)" where
  "loop_disk env allSvgFiles m =
     fold (\<lambda>filePath m. m(outputPath env filePath \<mapsto> optimizedSvg_of env filePath)) allSvgFiles m"

text \<open>
  The events of a run after \<open>ensureDir\<close> when nothing fails, in the order of the
  statements of \<open>processFiles\<close>; and whether nothing fails after \<open>ensureDir\<close>.
\<close>

definition script :: "env \<Rightarrow> event list" where
  "script env =
     [Readdir (RAW_DIR env), Log (Found (length (discovered env)))]
     @ loop_events env (discovered env)
     @ [Log (Complete (length (discovered env))),
        WriteFile (manifestPath env) (manifest (discovered env)),
        Log (ManifestCreated (manifestPath env))]"

definition run_ok :: "env \<Rightarrow> bool" where
  "run_ok env =
     (\<not> isl (getSvgFiles (RAW_DIR env) (raw_tree env))
      \<and> list_all (file_ok env) (discovered env)
      \<and> write_fault env (manifestPath env) = None)"

text \<open>
  Where a run that fails after \<open>ensureDir\<close> stops: after \<open>k\<close> events of the script, with
  the error \<open>e\<close>. A failed discovery stops after the first event; a failed file stops
  inside the loop; a failed manifest write stops after the write.
\<close>

definition fails_at :: "env \<Rightarrow> error \<Rightarrow> nat \<Rightarrow> bool" where
  "fails_at env e k =
     (case getSvgFiles (RAW_DIR env) (raw_tree env) of
        Inl err \<Rightarrow> k = 1 \<and> e = FsError err
      | Inr allSvgFiles \<Rightarrow>
          if list_all (file_ok env) allSvgFiles
          then k = length (loop_events env allSvgFiles) + 4
             \<and> (case e of FsError err \<Rightarrow> write_fault env (manifestPath env) = Some err
                 | TransformError msg \<Rightarrow> False)
          else 2 < k \<and> k < 2 + length (loop_events env allSvgFiles))"

text \<open>
  Where the iteration for one file stops when one of its three calls fails: the events
  up to and including the failing call, and the error that call throws. \<open>None\<close> when
  the read, the engine and the write all succeed.
\<close>

definition file_stop :: "env \<Rightarrow> string \<Rightarrow> (event list \<times> error) option" where
  "file_stop env filePath =
     (case contents env filePath of
        Inl err \<Rightarrow> Some ([ReadFile filePath], FsError err)
      | Inr content \<Rightarrow>
          (case engine env content (optimizeSvg_config (basename filePath None)) of
             Inl msg \<Rightarrow>
               Some ([ReadFile filePath, Optimize (basename filePath None)], TransformError msg)
           | Inr optimizedSvg \<Rightarrow>
               (case write_fault env (outputPath env filePath) of
                  Some err \<Rightarrow>
                    Some ([ReadFile filePath, Optimize (basename filePath None),
                           WriteFile (outputPath env filePath) optimizedSvg], FsError err)
                | None \<Rightarrow> None)))"

text \<open>
  A run aborted after the events \<open>evs\<close> by the error \<open>e\<close>: the exit code is 1, the run
  consists of \<open>evs\<close>, the report of \<open>e\<close> by \<^verbatim>\<open>console.error\<close> and \<^verbatim>\<open>process.exit(1)\<close>
  and nothing else, and the manifest file is what it was before the run.
\<close>

definition aborted :: "env \<Rightarrow> world \<Rightarrow> nat \<Rightarrow> world \<Rightarrow> event list \<Rightarrow> error \<Rightarrow> bool" where
  "aborted env w code w' evs e =
     (code = 1
      \<and> new_events w w' = evs @ [ConsoleError e, Exit 1]
      \<and> disk w' (manifestPath env) = disk w (manifestPath env))"

text \<open>
  The pipeline as a list of stages, in the order of the statements of \<open>processFiles\<close>:
  ensure the destination directory, discover, report the count, one stage per
  discovered file, report the completion count, write the manifest, report the manifest
  path. A stage has the events it adds and the error it fails with, if any; a failing
  file stage has the events up to the failing call only.
\<close>

definition ensure_error :: "env \<Rightarrow> world \<Rightarrow> error option" where
  "ensure_error env w =
     (if probe_ok env (OPTIMIZED_DIR env) w then None
      else map_option FsError (mkdir_fault env (OPTIMIZED_DIR env)))"

definition discovery_error :: "env \<Rightarrow> error option" where
  "discovery_error env =
     (case getSvgFiles (RAW_DIR env) (raw_tree env) of
        Inl err \<Rightarrow> Some (FsError err)
      | Inr allSvgFiles \<Rightarrow> None)"

definition file_stage :: "env \<Rightarrow> string \<Rightarrow> event list \<times> error option" where
  "file_stage env filePath =
     (case file_stop env filePath of
        None \<Rightarrow> (file_events env filePath (optimizedSvg_of env filePath), None)
      | Some (evs, e) \<Rightarrow> (evs, Some e))"

definition stages :: "env \<Rightarrow> world \<Rightarrow> (event list \<times> error option) list" where
  "stages env w =
     [(ensure_events env w, ensure_error env w),
      ([Readdir (RAW_DIR env)], discovery_error env),
      ([Log (Found (length (discovered env)))], None)]
     @ map (file_stage env) (discovered env)
     @ [([Log (Complete (length (discovered env)))], None),
        ([WriteFile (manifestPath env) (manifest (discovered env))],
         map_option FsError (write_fault env (manifestPath env))),
        ([Log (ManifestCreated (manifestPath env))], None)]"

text \<open>
  Going through a list of stages: the events of the stages up to and including the
  first one that fails, with its error; all events and no error when none fails.
\<close>

fun follow :: "(event list \<times> error option) list \<Rightarrow> event list \<times> error option" where
  "follow [] = ([], None)"
| "follow ((evs, Some e) # later) = (evs, Some e)"
| "follow ((evs, None) # later) = (case follow later of (evs', r) \<Rightarrow> (evs @ evs', r))"

text \<open>
  The events that touch a source or destination file, and the order the summary line
  would have if it came after the manifest write: some \<open>Complete\<close> line at or after the
  first write to the manifest path.
\<close>

fun is_processing :: "event \<Rightarrow> bool" where
  "is_processing (ReadFile p) = True"
| "is_processing (Optimize f) = True"
| "is_processing (WriteFile p d) = True"
| "is_processing ev = False"

definition summary_after_manifest :: "env \<Rightarrow> event list \<Rightarrow> bool" where
  "summary_after_manifest env evs =
     list_ex (\<lambda>ev. case ev of Log (Complete n) \<Rightarrow> True | _ \<Rightarrow> False)
       (dropWhile (\<lambda>ev. case ev of WriteFile p d \<Rightarrow> p \<noteq> manifestPath env | _ \<Rightarrow> True) evs)"

subsection \<open>Sample surroundings\<close>

text \<open>
  A small source tree with a nested directory, an upper-case extension, a file that is
  not an icon and an empty directory; surroundings in which nothing fails; and an
  initial state with nothing on the destination side.
\<close>

definition demo_tree :: listing where
  "demo_tree =
     Entries [File ''lock.svg'',
              Directory ''nav'' (Entries [File ''Arrow.SVG'', File ''notes.txt'']),
              Directory ''empty'' (Entries [])]"

definition demo_env :: env where
  "demo_env =
     \<lparr>cwd = ''/repo'',
      raw_tree = demo_tree,
      contents = (\<lambda>p. Inr ''<svg><path/></svg>''),
      engine = (\<lambda>svgContent cfg. Inr (''<!--'' @ path cfg @ ''-->'' @ svgContent)),
      access_fault = (\<lambda>p. None),
      mkdir_fault = (\<lambda>p. None),
      write_fault = (\<lambda>p. None)\<rparr>"

definition fresh :: world where
  "fresh = \<lparr>dirs = {}, disk = Map.empty, trace = []\<rparr>"

text \<open>
  Variations: no source root; an empty source tree; an engine that throws on one file;
  a probe that is denied on a destination directory that exists; a single file with an
  upper-case extension.
\<close>

definition no_raw_env :: env where
  "no_raw_env = demo_env\<lparr>raw_tree := ReaddirError ENOENT\<rparr>"

definition empty_env :: env where
  "empty_env = demo_env\<lparr>raw_tree := Entries []\<rparr>"

definition broken_env :: env where
  "broken_env =
     demo_env\<lparr>engine := (\<lambda>svgContent cfg.
        if path cfg = ''Arrow.SVG'' then Inl ''malformed'' else Inr svgContent)\<rparr>"

definition denied_env :: env where
  "denied_env = no_raw_env\<lparr>access_fault := (\<lambda>p. Some EACCES)\<rparr>"

definition existing :: world where
  "existing = fresh\<lparr>dirs := {''/repo/optimized''}\<rparr>"

definition upper_env :: env where
  "upper_env = demo_env\<lparr>raw_tree := Entries [File ''icon.SVG'']\<rparr>"

text \<open>
  One failing call each: a source file that cannot be read, a destination file that
  cannot be written, a manifest that cannot be written, a destination directory that
  cannot be created.
\<close>

definition unreadable_env :: env where
  "unreadable_env =
     demo_env\<lparr>contents := (\<lambda>p.
        if p = ''/repo/raw/nav/Arrow.SVG'' then Inl EACCES else Inr ''<svg><path/></svg>'')\<rparr>"

definition full_env :: env where
  "full_env =
     demo_env\<lparr>write_fault := (\<lambda>p.
        if p = ''/repo/optimized/Arrow.SVG'' then Some ENOSPC else None)\<rparr>"

definition locked_env :: env where
  "locked_env =
     demo_env\<lparr>write_fault := (\<lambda>p.
        if p = ''/repo/optimized/manifest.json'' then Some EACCES else None)\<rparr>"

definition no_mkdir_env :: env where
  "no_mkdir_env = demo_env\<lparr>mkdir_fault := (\<lambda>p. Some EACCES)\<rparr>"

section \<open>Path names\<close>

subsection \<open>Segments and \<^verbatim>\<open>basename\<close>\<close>

lemma suffix_loop_rest:
  "extIdx s < 0 \<Longrightarrow> firstNonSlashEnd s \<noteq> -1
     \<Longrightarrow> \<forall>j. n \<le> j \<and> j < n + k \<longrightarrow> pth ! j \<noteq> CHAR_FORWARD_SLASH
     \<Longrightarrow> basename_suffix_loop pth sfx (n + k) s = basename_suffix_loop pth sfx n s"
  by (induction k) (simp_all add: Let_def)

lemma suffix_loop_stop:
  assumes "n0 = 0 \<or> pth ! (n0 - 1) = CHAR_FORWARD_SLASH" "\<not> matchedSlash s" "start s = 0"
  shows "start (basename_suffix_loop pth sfx n0 s) = n0"
    and "end' (basename_suffix_loop pth sfx n0 s) = end' s"
    and "firstNonSlashEnd (basename_suffix_loop pth sfx n0 s) = firstNonSlashEnd s"
  using assms by (cases n0; simp)+

lemma suffix_loop_match:
  assumes "\<forall>j. n0 \<le> j \<and> j < n0 + k \<longrightarrow> pth ! j \<noteq> CHAR_FORWARD_SLASH"
      and "n0 + k \<le> length pth"
      and "n0 = 0 \<or> pth ! (n0 - 1) = CHAR_FORWARD_SLASH"
      and "extIdx s = int e" "e < length sfx" "end' s = -1"
      and "firstNonSlashEnd s \<noteq> -1" "\<not> matchedSlash s" "start s = 0"
  shows "start (basename_suffix_loop pth sfx (n0 + k) s) = n0
       \<and> firstNonSlashEnd (basename_suffix_loop pth sfx (n0 + k) s) = firstNonSlashEnd s
       \<and> end' (basename_suffix_loop pth sfx (n0 + k) s) =
           (if suffix (take (Suc e) sfx) (take k (drop n0 pth)) then int (n0 + k) - int (Suc e)
            else if suffix (take k (drop n0 pth)) (take (Suc e) sfx) then -1
            else firstNonSlashEnd s)"
  using assms
proof (induction k arbitrary: s e)
  case 0
  then have "sfx \<noteq> []" by auto
  with 0 show ?case by (simp add: suffix_loop_stop)
next
  case (Suc k)
  let ?c = "pth ! (n0 + k)"
  have c: "?c \<noteq> CHAR_FORWARD_SLASH" using Suc.prems(1) by simp
  have region: "\<forall>j. n0 \<le> j \<and> j < n0 + k \<longrightarrow> pth ! j \<noteq> CHAR_FORWARD_SLASH"
    using Suc.prems(1) by simp
  have seg: "take (Suc k) (drop n0 pth) = take k (drop n0 pth) @ [?c]"
    using Suc.prems(2) by (simp add: take_Suc_conv_app_nth)
  have pat: "take (Suc e) sfx = take e sfx @ [sfx ! e]"
    using Suc.prems(5) by (simp add: take_Suc_conv_app_nth)
  have idx: "nat (extIdx s) = e" "extIdx s \<ge> 0" "extIdx s - 1 = -1 \<longleftrightarrow> e = 0"
    using Suc.prems(4) by auto
  have fnse: "firstNonSlashEnd s \<noteq> -1" using Suc.prems(7) .
  show ?case
  proof (cases "?c = sfx ! e")
    case False
    let ?s2 = "s\<lparr>extIdx := -1, end' := firstNonSlashEnd s\<rparr>"
    have "basename_suffix_loop pth sfx (n0 + Suc k) s = basename_suffix_loop pth sfx (n0 + k) ?s2"
      using c False idx fnse by (simp add: Let_def)
    also have "\<dots> = basename_suffix_loop pth sfx n0 ?s2"
      using region Suc.prems by (intro suffix_loop_rest) simp_all
    finally have eq: "basename_suffix_loop pth sfx (n0 + Suc k) s = basename_suffix_loop pth sfx n0 ?s2" .
    have "\<not> suffix (take (Suc e) sfx) (take (Suc k) (drop n0 pth))"
      unfolding seg pat using False by simp
    moreover have "\<not> suffix (take (Suc k) (drop n0 pth)) (take (Suc e) sfx)"
      unfolding seg pat using False by simp
    ultimately show ?thesis
      unfolding eq using Suc.prems by (simp add: suffix_loop_stop)
  next
    case True
    show ?thesis
    proof (cases e)
      case 0
      let ?s2 = "s\<lparr>extIdx := extIdx s - 1, end' := int (n0 + k)\<rparr>"
      have "basename_suffix_loop pth sfx (n0 + Suc k) s = basename_suffix_loop pth sfx (n0 + k) ?s2"
        using c True 0 idx fnse by (simp add: Let_def)
      also have "\<dots> = basename_suffix_loop pth sfx n0 ?s2"
        using region Suc.prems 0 by (intro suffix_loop_rest) simp_all
      finally have eq: "basename_suffix_loop pth sfx (n0 + Suc k) s = basename_suffix_loop pth sfx n0 ?s2" .
      have "suffix (take (Suc e) sfx) (take (Suc k) (drop n0 pth))"
        unfolding seg pat using True 0 by simp
      then show ?thesis
        unfolding eq using Suc.prems 0 by (simp add: suffix_loop_stop)
    next
      case (Suc e')
      let ?s2 = "s\<lparr>extIdx := extIdx s - 1\<rparr>"
      have step: "basename_suffix_loop pth sfx (n0 + Suc k) s = basename_suffix_loop pth sfx (n0 + k) ?s2"
        using c True Suc idx fnse by (simp add: Let_def)
      have IH: "start (basename_suffix_loop pth sfx (n0 + k) ?s2) = n0
         \<and> firstNonSlashEnd (basename_suffix_loop pth sfx (n0 + k) ?s2) = firstNonSlashEnd ?s2
         \<and> end' (basename_suffix_loop pth sfx (n0 + k) ?s2) =
           (if suffix (take (Suc e') sfx) (take k (drop n0 pth)) then int (n0 + k) - int (Suc e')
            else if suffix (take k (drop n0 pth)) (take (Suc e') sfx) then -1
            else firstNonSlashEnd ?s2)"
        using region Suc Suc.prems by (intro Suc.IH) simp_all
      have a: "suffix (take (Suc e) sfx) (take (Suc k) (drop n0 pth))
                 \<longleftrightarrow> suffix (take (Suc e') sfx) (take k (drop n0 pth))"
        unfolding seg pat using True Suc by simp
      have b: "suffix (take (Suc k) (drop n0 pth)) (take (Suc e) sfx)
                 \<longleftrightarrow> suffix (take k (drop n0 pth)) (take (Suc e') sfx)"
        unfolding seg pat using True Suc by simp
      show ?thesis
        unfolding step a b using IH Suc by simp
    qed
  qed
qed

lemma basename_loop_rest:
  "end' s \<noteq> -1 \<Longrightarrow> \<forall>j. n \<le> j \<and> j < n + k \<longrightarrow> pth ! j \<noteq> CHAR_FORWARD_SLASH
     \<Longrightarrow> basename_loop pth (n + k) s = basename_loop pth n s"
  by (induction k) simp_all

lemma basename_loop_component:
  assumes "\<forall>j. n \<le> j \<and> j < n + Suc k \<longrightarrow> pth ! j \<noteq> CHAR_FORWARD_SLASH"
      and "end' s = -1"
  shows "basename_loop pth (n + Suc k) s =
           basename_loop pth n (s\<lparr>matchedSlash := False, end' := int (n + k) + 1\<rparr>)"
proof -
  have "basename_loop pth (n + Suc k) s =
          basename_loop pth (n + k) (s\<lparr>matchedSlash := False, end' := int (n + k) + 1\<rparr>)"
    using assms by simp
  also have "\<dots> = basename_loop pth n (s\<lparr>matchedSlash := False, end' := int (n + k) + 1\<rparr>)"
    using assms by (intro basename_loop_rest) auto
  finally show ?thesis .
qed

lemma slice_append_tail: "slice (xs @ ys) (length xs) (length xs + length ys) = ys"
  by (simp add: slice_def)

lemma basename_None_segment:
  assumes "name \<noteq> []" "CHAR_FORWARD_SLASH \<notin> set name"
  shows "basename (pre @ CHAR_FORWARD_SLASH # name) None = name"
    and "basename name None = name"
proof -
  obtain k where k: "length name = Suc k" using assms(1) by (cases name) auto
  let ?s0 = "\<lparr>start = 0, end' = -1, matchedSlash = True, extIdx = -1, firstNonSlashEnd = -1\<rparr>"
  let ?p = "pre @ CHAR_FORWARD_SLASH # name"
  have nth: "\<forall>j. Suc (length pre) \<le> j \<and> j < Suc (length pre) + Suc k \<longrightarrow> ?p ! j \<noteq> CHAR_FORWARD_SLASH"
  proof (intro allI impI)
    fix j assume j: "Suc (length pre) \<le> j \<and> j < Suc (length pre) + Suc k"
    then have "?p ! j = name ! (j - Suc (length pre))"
      by (simp add: nth_append nth_Cons')
    moreover have "j - Suc (length pre) < length name" using j k by arith
    then have "name ! (j - Suc (length pre)) \<in> set name" by (rule nth_mem)
    ultimately show "?p ! j \<noteq> CHAR_FORWARD_SLASH" using assms(2) by metis
  qed
  have len: "length ?p = Suc (length pre) + Suc k" using k by simp
  have "basename_loop ?p (length ?p) ?s0 =
          basename_loop ?p (Suc (length pre)) (?s0\<lparr>matchedSlash := False, end' := int (Suc (length pre) + k) + 1\<rparr>)"
    unfolding len by (rule basename_loop_component [OF nth]) simp
  also have "\<dots> = ?s0\<lparr>matchedSlash := False, end' := int (Suc (length pre) + k) + 1, start := length pre + 1\<rparr>"
    by simp
  finally have "basename ?p None = slice ?p (Suc (length pre)) (Suc (length pre) + length name)"
    using k by (simp add: basename_def Let_def nat_add_distrib)
  also have "\<dots> = name"
    using slice_append_tail [of "pre @ [CHAR_FORWARD_SLASH]" name] by simp
  finally show "basename ?p None = name" .
  have nth': "\<forall>j. 0 \<le> j \<and> j < 0 + Suc k \<longrightarrow> name ! j \<noteq> CHAR_FORWARD_SLASH"
    using assms(2) k by (metis add_0 nth_mem)
  have "basename_loop name (0 + Suc k) ?s0 =
          basename_loop name 0 (?s0\<lparr>matchedSlash := False, end' := int (0 + k) + 1\<rparr>)"
    by (rule basename_loop_component [OF nth']) simp
  then have "basename name None = slice name 0 (length name)"
    using k by (simp add: basename_def Let_def nat_add_distrib)
  then show "basename name None = name" by (simp add: slice_def)
qed

lemma suffix_loop_first:
  "pth ! i \<noteq> CHAR_FORWARD_SLASH \<Longrightarrow> firstNonSlashEnd s = -1
     \<Longrightarrow> basename_suffix_loop pth sfx (Suc i) s =
         basename_suffix_loop pth sfx (Suc i)
           (s\<lparr>matchedSlash := False, firstNonSlashEnd := int i + 1\<rparr>)"
  by (simp add: Let_def)

lemma suffix_loop_segment:
  assumes name: "name \<noteq> []" "CHAR_FORWARD_SLASH \<notin> set name"
      and pth: "pth = front @ name" "front = [] \<or> last front = CHAR_FORWARD_SLASH"
      and sfx: "sfx \<noteq> []"
  defines "t \<equiv> basename_suffix_loop pth sfx (length pth)
                  \<lparr>start = 0, end' = -1, matchedSlash = True,
                   extIdx = int (length sfx) - 1, firstNonSlashEnd = -1\<rparr>"
  shows "start t = length front"
    and "firstNonSlashEnd t = int (length pth)"
    and "end' t = (if suffix sfx name then int (length pth) - int (length sfx)
                   else if suffix name sfx then -1 else int (length pth))"
proof -
  let ?s0 = "\<lparr>start = 0, end' = -1, matchedSlash = True,
              extIdx = int (length sfx) - 1, firstNonSlashEnd = -1\<rparr>"
  let ?n0 = "length front"
  obtain k where k: "length name = Suc k" using name(1) by (cases name) auto
  obtain e where e: "length sfx = Suc e" using sfx by (cases sfx) auto
  have len: "length pth = Suc (?n0 + k)" using pth(1) k by simp
  let ?s1 = "?s0\<lparr>matchedSlash := False, firstNonSlashEnd := int (?n0 + k) + 1\<rparr>"
  have region: "\<forall>j. ?n0 \<le> j \<and> j < ?n0 + Suc k \<longrightarrow> pth ! j \<noteq> CHAR_FORWARD_SLASH"
  proof (intro allI impI)
    fix j assume j: "?n0 \<le> j \<and> j < ?n0 + Suc k"
    then have "pth ! j = name ! (j - ?n0)" using pth(1) by (simp add: nth_append)
    moreover have "j - ?n0 < length name" using j k by arith
    then have "name ! (j - ?n0) \<in> set name" by (rule nth_mem)
    ultimately show "pth ! j \<noteq> CHAR_FORWARD_SLASH" using name(2) by metis
  qed
  have stop: "?n0 = 0 \<or> pth ! (?n0 - 1) = CHAR_FORWARD_SLASH"
  proof (cases "front = []")
    case True then show ?thesis by simp
  next
    case False
    then have "pth ! (?n0 - 1) = last front"
      using pth(1) by (simp add: nth_append last_conv_nth)
    with False pth(2) show ?thesis by simp
  qed
  have "t = basename_suffix_loop pth sfx (Suc (?n0 + k)) ?s1"
    unfolding t_def len using region by (intro suffix_loop_first) simp_all
  then have t: "t = basename_suffix_loop pth sfx (?n0 + Suc k) ?s1" by simp
  have seg: "take (Suc k) (drop ?n0 pth) = name" using pth(1) k by simp
  have pat: "take (Suc e) sfx = sfx" using e by simp
  have m: "start (basename_suffix_loop pth sfx (?n0 + Suc k) ?s1) = ?n0
       \<and> firstNonSlashEnd (basename_suffix_loop pth sfx (?n0 + Suc k) ?s1) = firstNonSlashEnd ?s1
       \<and> end' (basename_suffix_loop pth sfx (?n0 + Suc k) ?s1) =
           (if suffix (take (Suc e) sfx) (take (Suc k) (drop ?n0 pth))
            then int (?n0 + Suc k) - int (Suc e)
            else if suffix (take (Suc k) (drop ?n0 pth)) (take (Suc e) sfx) then -1
            else firstNonSlashEnd ?s1)"
    using region stop len e by (intro suffix_loop_match) simp_all
  show "start t = length front" using m t by simp
  show "firstNonSlashEnd t = int (length pth)" using m t len by simp
  show "end' t = (if suffix sfx name then int (length pth) - int (length sfx)
                   else if suffix name sfx then -1 else int (length pth))"
    using m unfolding t seg pat using len e by simp
qed

lemma basename_Some_unfold:
  assumes "sfx \<noteq> []" "length sfx \<le> length pth" "sfx \<noteq> pth"
  shows "basename pth (Some sfx) =
     (let t = basename_suffix_loop pth sfx (length pth)
                \<lparr>start = 0, end' = -1, matchedSlash = True,
                 extIdx = int (length sfx) - 1, firstNonSlashEnd = -1\<rparr>
      in slice pth (start t)
           (nat (if int (start t) = end' t then firstNonSlashEnd t
                 else if end' t = -1 then int (length pth) else end' t)))"
  using assms by (simp add: basename_def Let_def)

lemma basename_Some_plain:
  "sfx = [] \<or> length pth < length sfx \<Longrightarrow> basename pth (Some sfx) = basename pth None"
  by (auto simp: basename_def Let_def)

lemma basename_Some_general:
  assumes name: "name \<noteq> []" "CHAR_FORWARD_SLASH \<notin> set name"
      and pth: "pth = front @ name" "front = [] \<or> last front = CHAR_FORWARD_SLASH"
      and sfx: "sfx \<noteq> []" "length sfx \<le> length pth" "sfx \<noteq> pth"
  shows "basename pth (Some sfx) =
           (if suffix sfx name \<and> sfx \<noteq> name then take (length name - length sfx) name else name)"
proof -
  define t where "t = basename_suffix_loop pth sfx (length pth)
                  \<lparr>start = 0, end' = -1, matchedSlash = True,
                   extIdx = int (length sfx) - 1, firstNonSlashEnd = -1\<rparr>"
  note seg = suffix_loop_segment [OF name pth sfx(1), folded t_def]
  have b: "basename pth (Some sfx) =
             slice pth (start t)
               (nat (if int (start t) = end' t then firstNonSlashEnd t
                     else if end' t = -1 then int (length pth) else end' t))"
    unfolding basename_Some_unfold [OF sfx] t_def Let_def ..
  have whole: "slice pth (length front) (length pth) = name"
    using pth(1) by (simp add: slice_def)
  consider (match) "suffix sfx name" | (partial) "\<not> suffix sfx name" "suffix name sfx"
    | (mismatch) "\<not> suffix sfx name" "\<not> suffix name sfx" by blast
  then show ?thesis
  proof cases
    case match
    then obtain zs where zs: "name = zs @ sfx" by (auto simp: suffix_def)
    have e: "end' t = int (length front + length zs)"
      using seg(3) match pth(1) zs by simp
    show ?thesis
    proof (cases "zs = []")
      case True
      then have "int (start t) = end' t" using e seg(1) by simp
      then have "basename pth (Some sfx) = slice pth (length front) (length pth)"
        unfolding b using seg(1,2) by simp
      then show ?thesis using whole True zs by simp
    next
      case False
      then have "int (start t) \<noteq> end' t" "end' t \<noteq> -1" using e seg(1) by simp_all
      then have "basename pth (Some sfx) = slice pth (length front) (length front + length zs)"
        unfolding b using seg(1) e by (simp add: nat_add_distrib)
      also have "\<dots> = zs" using pth(1) zs by (simp add: slice_def)
      finally show ?thesis using match False zs by simp
    qed
  next
    case partial
    then have "end' t = -1" using seg(3) by simp
    then have "basename pth (Some sfx) = slice pth (length front) (length pth)"
      unfolding b using seg(1) by simp
    then show ?thesis using whole partial by simp
  next
    case mismatch
    then have "end' t = int (length pth)" using seg(3) by simp
    moreover have "length front \<noteq> length pth" using pth(1) name(1) by simp
    ultimately have "basename pth (Some sfx) = slice pth (length front) (length pth)"
      unfolding b using seg(1) by simp
    then show ?thesis using whole mismatch by simp
  qed
qed

lemma basename_Some_segment:
  assumes name: "name \<noteq> []" "CHAR_FORWARD_SLASH \<notin> set name"
  shows "CHAR_FORWARD_SLASH \<notin> set sfx \<Longrightarrow>
         basename (pre @ CHAR_FORWARD_SLASH # name) (Some sfx) =
           (if sfx = name then name else strip_suffix name sfx)"
    and "basename name (Some sfx) = strip_suffix name sfx"
proof -
  let ?p = "pre @ CHAR_FORWARD_SLASH # name"
  have long: "strip_suffix name sfx = name \<and> sfx \<noteq> name"
    if "sfx = [] \<or> length name < length sfx"
    using that name(1) by (auto simp: strip_suffix_def dest: suffix_length_le)
  show "basename ?p (Some sfx) = (if sfx = name then name else strip_suffix name sfx)"
    if noslash: "CHAR_FORWARD_SLASH \<notin> set sfx"
  proof (cases "sfx = [] \<or> length ?p < length sfx")
    case True
    then have "sfx = [] \<or> length name < length sfx" by auto
    then show ?thesis
      using long basename_Some_plain [OF True] basename_None_segment(1) [OF name] by simp
  next
    case False
    have p: "?p = (pre @ [CHAR_FORWARD_SLASH]) @ name" by simp
    show ?thesis
    proof (cases "sfx = ?p")
      case True
      then have "CHAR_FORWARD_SLASH \<in> set sfx" by simp
      with noslash show ?thesis by simp
    next
      case neq: False
      have "basename ?p (Some sfx) =
           (if suffix sfx name \<and> sfx \<noteq> name then take (length name - length sfx) name else name)"
        using False neq by (intro basename_Some_general [OF name p]) simp_all
      then show ?thesis using False by (auto simp: strip_suffix_def)
    qed
  qed
  show "basename name (Some sfx) = strip_suffix name sfx"
  proof (cases "sfx = [] \<or> length name < length sfx")
    case True
    then show ?thesis
      using long basename_Some_plain [OF True] basename_None_segment(2) [OF name] by simp
  next
    case False
    show ?thesis
    proof (cases "sfx = name")
      case True
      then show ?thesis using name(1) by (simp add: basename_def strip_suffix_def)
    next
      case neq: False
      have "basename name (Some sfx) =
           (if suffix sfx name \<and> sfx \<noteq> name then take (length name - length sfx) name else name)"
        using False neq by (intro basename_Some_general [OF name, of _ "[]"]) simp_all
      then show ?thesis using False neq by (auto simp: strip_suffix_def)
    qed
  qed
qed

lemma strip_suffix_append: "sfx \<noteq> [] \<Longrightarrow> strip_suffix (stem @ sfx) sfx = stem"
  by (simp add: strip_suffix_def suffix_def)

lemma basename_lowercase_svg:
  assumes "CHAR_FORWARD_SLASH \<notin> set stem"
  shows "basename (stem @ ''.svg'') (Some ''.svg'') = stem"
    and "stem \<noteq> [] \<Longrightarrow> basename (pre @ CHAR_FORWARD_SLASH # stem @ ''.svg'') (Some ''.svg'') = stem"
proof -
  have n: "stem @ ''.svg'' \<noteq> []" "CHAR_FORWARD_SLASH \<notin> set (stem @ ''.svg'')"
    using assms by (simp_all add: CHAR_FORWARD_SLASH_def)
  have ns: "CHAR_FORWARD_SLASH \<notin> set ''.svg''" by (simp add: CHAR_FORWARD_SLASH_def)
  show "basename (stem @ ''.svg'') (Some ''.svg'') = stem"
    using basename_Some_segment(2) [OF n, of "''.svg''"] by (simp add: strip_suffix_append)
  show "basename (pre @ CHAR_FORWARD_SLASH # stem @ ''.svg'') (Some ''.svg'') = stem"
    if "stem \<noteq> []"
    using basename_Some_segment(1) [OF n ns, of pre] that by (simp add: strip_suffix_append)
qed

lemma prefix_lowercase_svg:
  "CHAR_FORWARD_SLASH \<notin> set stem \<Longrightarrow>
     map plugin_params (plugins (optimizeSvg_config (stem @ ''.svg''))) ! 1
       = [(''prefix'', JString (stem @ ''-''))]"
  by (simp add: optimizeSvg_config_def basename_lowercase_svg(1))

lemma basename_uppercase_svg:
  assumes "CHAR_FORWARD_SLASH \<notin> set stem" "ext \<noteq> ''.svg''" "length ext = 4"
    "CHAR_FORWARD_SLASH \<notin> set ext"
  shows "basename (pre @ CHAR_FORWARD_SLASH # stem @ ext) (Some ''.svg'') = stem @ ext"
proof -
  have n: "stem @ ext \<noteq> []" "CHAR_FORWARD_SLASH \<notin> set (stem @ ext)"
    using assms by auto
  have ns: "CHAR_FORWARD_SLASH \<notin> set ''.svg''" by (simp add: CHAR_FORWARD_SLASH_def)
  have "\<not> suffix ''.svg'' (stem @ ext)"
  proof
    assume "suffix ''.svg'' (stem @ ext)"
    then obtain zs where "stem @ ext = zs @ ''.svg''" by (auto simp: suffix_def)
    then have "ext = ''.svg''" using assms(3) by (simp add: append_eq_append_conv)
    with assms(2) show False by simp
  qed
  then have "strip_suffix (stem @ ext) ''.svg'' = stem @ ext" by (simp add: strip_suffix_def)
  with basename_Some_segment(1) [OF n ns, of pre] show ?thesis by simp
qed

subsection \<open>The extension test\<close>

lemma endsWith_suffix: "endsWith s t \<longleftrightarrow> suffix t s"
proof
  assume "endsWith s t"
  then have "s = take (length s - length t) s @ t"
    by (metis append_take_drop_id endsWith_def)
  then show "suffix t s" by (metis suffixI)
next
  assume "suffix t s"
  then obtain zs where "s = zs @ t" by (auto simp: suffix_def)
  then show "endsWith s t" by (simp add: endsWith_def)
qed

lemma suffix_past:
  assumes "c \<notin> set t"
  shows "suffix t (xs @ c # ys) \<longleftrightarrow> suffix t ys"
proof
  assume "suffix t (xs @ c # ys)"
  then obtain zs where "xs @ c # ys = zs @ t" by (auto simp: suffix_def)
  then obtain us where "(xs = zs @ us \<and> us @ c # ys = t) \<or> (xs @ us = zs \<and> c # ys = us @ t)"
    by (auto simp: append_eq_append_conv2)
  then show "suffix t ys"
  proof
    assume "xs = zs @ us \<and> us @ c # ys = t"
    then have "c \<in> set t" by auto
    with assms show ?thesis by simp
  next
    assume a: "xs @ us = zs \<and> c # ys = us @ t"
    show ?thesis
    proof (cases us)
      case Nil
      with a have "c \<in> set t" by auto
      with assms show ?thesis by simp
    next
      case (Cons u us')
      with a have "ys = us' @ t" by simp
      then show ?thesis by (simp add: suffix_def)
    qed
  qed
next
  assume "suffix t ys"
  then show "suffix t (xs @ c # ys)" by (simp add: suffix_appendI suffix_ConsI)
qed

lemma toLowerCase_slash [simp]: "toLowerCase_char CHAR_FORWARD_SLASH = CHAR_FORWARD_SLASH"
  by (simp add: toLowerCase_char_def CHAR_FORWARD_SLASH_def)

lemma toLowerCase_char_iff:
  "CHR ''.'' = toLowerCase_char c \<longleftrightarrow> c = CHR ''.''"
  "CHR ''s'' = toLowerCase_char c \<longleftrightarrow> c = CHR ''s'' \<or> c = CHR ''S''"
  "CHR ''v'' = toLowerCase_char c \<longleftrightarrow> c = CHR ''v'' \<or> c = CHR ''V''"
  "CHR ''g'' = toLowerCase_char c \<longleftrightarrow> c = CHR ''g'' \<or> c = CHR ''G''"
  by (auto simp: toLowerCase_char_def)

lemma svg_segment:
  "endsWith (toLowerCase (pre @ CHAR_FORWARD_SLASH # name)) ''.svg''
     \<longleftrightarrow> endsWith (toLowerCase name) ''.svg''"
proof -
  have "CHAR_FORWARD_SLASH \<notin> set ''.svg''" by (simp add: CHAR_FORWARD_SLASH_def)
  from suffix_past [OF this, of "toLowerCase pre" "toLowerCase name"]
  show ?thesis by (simp add: endsWith_suffix toLowerCase_def)
qed

lemma svg_name_iff: "endsWith (toLowerCase name) ''.svg'' \<longleftrightarrow> svg_name name"
proof -
  have "endsWith (toLowerCase name) ''.svg''
          \<longleftrightarrow> prefix (rev ''.svg'') (map toLowerCase_char (rev name))"
    by (simp add: endsWith_suffix toLowerCase_def suffix_to_prefix rev_map del: rev.simps)
  also have "\<dots> \<longleftrightarrow> svg_name name"
    by (auto simp: svg_name_def toLowerCase_char_iff split: list.splits)
  finally show ?thesis .
qed

lemma path_resolve_segment:
  "\<exists>pre. path_resolve dir name = pre @ CHAR_FORWARD_SLASH # name"
  by (cases "dir = ''/''") (auto simp: path_resolve_def CHAR_FORWARD_SLASH_def)

lemma path_join_segment:
  "\<exists>pre. path_join dir name = pre @ CHAR_FORWARD_SLASH # name"
  by (cases "dir = ''/''") (auto simp: path_join_def CHAR_FORWARD_SLASH_def)

lemma path_join_inject [simp]: "path_join dir a = path_join dir b \<longleftrightarrow> a = b"
  by (simp add: path_join_def)

lemma svg_path_resolve:
  "endsWith (toLowerCase (path_resolve dir name)) ''.svg'' \<longleftrightarrow> svg_name name"
proof -
  obtain pre where "path_resolve dir name = pre @ CHAR_FORWARD_SLASH # name"
    using path_resolve_segment by blast
  then have "endsWith (toLowerCase (path_resolve dir name)) ''.svg''
               \<longleftrightarrow> endsWith (toLowerCase name) ''.svg''"
    by (simp only: svg_segment)
  then show ?thesis by (simp only: svg_name_iff)
qed

section \<open>Discovery\<close>

lemma Promise_all_Inr:
  "Promise_all rs = Inr xs \<Longrightarrow> rs = map Inr xs"
  by (induction rs arbitrary: xs rule: Promise_all.induct) (auto split: sum.splits)

lemma Promise_all_Inl:
  "Promise_all rs = Inl e \<Longrightarrow> Inl e \<in> set rs"
  by (induction rs rule: Promise_all.induct) (auto split: sum.splits)

lemma Promise_all_map_Inr [simp]: "Promise_all (map Inr xs) = Inr xs"
  by (induction xs) auto

lemma Promise_all_filter_cong:
  assumes "\<And>x. x \<in> set xs \<Longrightarrow>
             (case g x of Inl e \<Rightarrow> f x = Inl e
              | Inr ps \<Rightarrow> \<exists>qs. f x = Inr qs \<and> filter P qs = filter P ps)"
  shows "(case Promise_all (map f xs) of Inl e \<Rightarrow> Inl e
          | Inr fs \<Rightarrow> Inr (filter P (concat fs)))
       = (case Promise_all (map g xs) of Inl e \<Rightarrow> Inl e
          | Inr gs \<Rightarrow> Inr (filter P (concat gs)))"
  using assms
proof (induction xs)
  case Nil
  then show ?case by simp
next
  case (Cons x xs)
  have IH: "(case Promise_all (map f xs) of Inl e \<Rightarrow> Inl e
          | Inr fs \<Rightarrow> Inr (filter P (concat fs)))
       = (case Promise_all (map g xs) of Inl e \<Rightarrow> Inl e
          | Inr gs \<Rightarrow> Inr (filter P (concat gs)))"
    using Cons.prems by (intro Cons.IH) simp
  have x: "(case g x of Inl e \<Rightarrow> f x = Inl e
              | Inr ps \<Rightarrow> \<exists>qs. f x = Inr qs \<and> filter P qs = filter P ps)"
    using Cons.prems by simp
  show ?case
  proof (cases "g x")
    case (Inl e)
    with x show ?thesis by simp
  next
    case (Inr ps)
    with x obtain qs where qs: "f x = Inr qs" "filter P qs = filter P ps" by auto
    show ?thesis
      using IH Inr qs
      by (cases "Promise_all (map f xs)"; cases "Promise_all (map g xs)") simp_all
  qed
qed

lemma getSvgFiles_walk_aux:
  "getSvgFiles dir l =
     (case walk dir l of Inl e \<Rightarrow> Inl e
      | Inr ps \<Rightarrow> Inr (filter (\<lambda>file. endsWith (toLowerCase file) ''.svg'') ps))"
  "(case walk_entry dir d of Inl e \<Rightarrow> visit dir d = Inl e
    | Inr ps \<Rightarrow> \<exists>qs. visit dir d = Inr qs
        \<and> filter (\<lambda>file. endsWith (toLowerCase file) ''.svg'') qs
          = filter (\<lambda>file. endsWith (toLowerCase file) ''.svg'') ps)"
proof (induction dir l and dir d rule: getSvgFiles_visit.induct)
  case (1 dir e)
  then show ?case by simp
next
  case (2 dir entries)
  from Promise_all_filter_cong [where xs = entries and g = "walk_entry dir" and f = "visit dir", OF 2]
  show ?case by (simp split: sum.splits)
next
  case (3 dir name)
  then show ?case by simp
next
  case (4 dir name l)
  then show ?case by (simp split: sum.splits)
qed

lemma walk_has_slash:
  "walk dir l = Inr ps \<Longrightarrow> p \<in> set ps \<Longrightarrow> CHAR_FORWARD_SLASH \<in> set p"
  "walk_entry dir d = Inr ps \<Longrightarrow> p \<in> set ps \<Longrightarrow> CHAR_FORWARD_SLASH \<in> set p"
proof (induction dir l and dir d arbitrary: ps and ps rule: walk_walk_entry.induct)
  case (1 dir e)
  then show ?case by simp
next
  case (2 dir entries)
  from "2.prems" obtain found where f: "Promise_all (map (walk_entry dir) entries) = Inr found"
    and ps: "ps = concat found" by (auto split: sum.splits)
  from Promise_all_Inr [OF f] have m: "map (walk_entry dir) entries = map Inr found" .
  from "2.prems"(2) ps obtain qs where qs: "qs \<in> set found" "p \<in> set qs" by auto
  then have "Inr qs \<in> set (map (walk_entry dir) entries)" using m by simp
  then obtain x where "x \<in> set entries" "walk_entry dir x = Inr qs" by auto
  then show ?case using "2.IH" qs(2) by blast
next
  case (3 dir name)
  then show ?case using path_resolve_segment [of dir name] by auto
next
  case (4 dir name l)
  then show ?case by simp
qed

lemma segment_split:
  assumes "CHAR_FORWARD_SLASH \<in> set p"
  shows "\<exists>pre name. p = pre @ CHAR_FORWARD_SLASH # name \<and> CHAR_FORWARD_SLASH \<notin> set name"
  using assms by (metis split_list_last)

lemma discovered_segment:
  assumes "getSvgFiles dir l = Inr ps" "p \<in> set ps"
  shows "\<exists>pre name. p = pre @ CHAR_FORWARD_SLASH # name \<and> name \<noteq> []
           \<and> CHAR_FORWARD_SLASH \<notin> set name \<and> svg_name name"
proof -
  from assms(1) obtain qs where qs: "walk dir l = Inr qs"
    and ps: "ps = filter (\<lambda>file. endsWith (toLowerCase file) ''.svg'') qs"
    by (auto simp: getSvgFiles_walk_aux(1) split: sum.splits)
  from assms(2) ps have p: "p \<in> set qs" "endsWith (toLowerCase p) ''.svg''" by auto
  from walk_has_slash(1) [OF qs p(1)] obtain pre name
    where d: "p = pre @ CHAR_FORWARD_SLASH # name" "CHAR_FORWARD_SLASH \<notin> set name"
    using segment_split by blast
  from p(2) have "endsWith (toLowerCase name) ''.svg''"
    unfolding d(1) by (simp only: svg_segment)
  then have s: "svg_name name" by (simp only: svg_name_iff)
  then have "name \<noteq> []" by (auto simp: svg_name_def)
  with d s show ?thesis by blast
qed

lemma Promise_all_filter_concat:
  assumes "\<And>x. x \<in> set xs \<Longrightarrow>
             (case g x of Inl e \<Rightarrow> f x = Inl e | Inr ps \<Rightarrow> f x = Inr (filter P ps))"
  shows "(case Promise_all (map f xs) of Inl e \<Rightarrow> Inl e | Inr fs \<Rightarrow> Inr (concat fs))
       = (case Promise_all (map g xs) of Inl e \<Rightarrow> Inl e
          | Inr gs \<Rightarrow> Inr (filter P (concat gs)))"
  using assms
proof (induction xs)
  case Nil
  then show ?case by simp
next
  case (Cons x xs)
  have IH: "(case Promise_all (map f xs) of Inl e \<Rightarrow> Inl e | Inr fs \<Rightarrow> Inr (concat fs))
       = (case Promise_all (map g xs) of Inl e \<Rightarrow> Inl e
          | Inr gs \<Rightarrow> Inr (filter P (concat gs)))"
    using Cons.prems by (intro Cons.IH) simp
  have x: "(case g x of Inl e \<Rightarrow> f x = Inl e | Inr ps \<Rightarrow> f x = Inr (filter P ps))"
    using Cons.prems by simp
  show ?case
  proof (cases "g x")
    case (Inl e)
    with x show ?thesis by simp
  next
    case (Inr ps)
    with x have "f x = Inr (filter P ps)" by simp
    with IH Inr show ?thesis
      by (cases "Promise_all (map f xs)"; cases "Promise_all (map g xs)") simp_all
  qed
qed

lemma discover_walk:
  "discover dir l =
     (case walk dir l of Inl e \<Rightarrow> Inl e
      | Inr ps \<Rightarrow> Inr (filter (\<lambda>file. endsWith (toLowerCase file) ''.svg'') ps))"
  "(case walk_entry dir d of Inl e \<Rightarrow> discover_entry dir d = Inl e
    | Inr ps \<Rightarrow> discover_entry dir d
        = Inr (filter (\<lambda>file. endsWith (toLowerCase file) ''.svg'') ps))"
proof (induction dir l and dir d rule: discover_discover_entry.induct)
  case (1 dir e)
  then show ?case by simp
next
  case (2 dir entries)
  from Promise_all_filter_concat [where xs = entries and g = "walk_entry dir"
      and f = "discover_entry dir", OF 2]
  show ?case by (simp split: sum.splits)
next
  case (3 dir name)
  then show ?case by (simp add: svg_path_resolve)
next
  case (4 dir name l)
  then show ?case by (simp split: sum.splits)
qed

section \<open>Runs\<close>

subsection \<open>The operations and the loop\<close>

lemma trace_emit [simp]: "trace (emit e w) = trace w @ [e]"
  and dirs_emit [simp]: "dirs (emit e w) = dirs w"
  and disk_emit [simp]: "disk (emit e w) = disk w"
  by (simp_all add: emit_def)

lemma trace_console_log [simp]: "trace (console_log l w) = trace w @ [Log l]"
  and dirs_console_log [simp]: "dirs (console_log l w) = dirs w"
  and disk_console_log [simp]: "disk (console_log l w) = disk w"
  by (simp_all add: console_log_def)

lemma new_events_append: "trace w' = trace w @ evs \<Longrightarrow> new_events w w' = evs"
  by (simp add: new_events_def)

lemma writes_append [simp]: "writes (xs @ ys) = writes xs @ writes ys"
  by (induction xs rule: writes.induct) simp_all

lemma fs_access_ok:
  "probe_ok env p w \<Longrightarrow> fs_access env p w = (Inr (), emit (Access p) w)"
  by (auto simp: fs_access_def probe_ok_def Let_def)

lemma fs_access_fails:
  "\<not> probe_ok env p w \<Longrightarrow> \<exists>e. fs_access env p w = (Inl e, emit (Access p) w)"
  by (auto simp: fs_access_def probe_ok_def Let_def split: option.splits)

lemma fs_access_Inl:
  "fs_access env p w = (Inl e, w1) \<Longrightarrow> \<not> probe_ok env p w \<and> w1 = emit (Access p) w"
  by (auto simp: fs_access_def probe_ok_def Let_def split: option.splits if_splits)

lemma fs_mkdir_eq:
  "fs_mkdir env p w =
     (case mkdir_fault env p of
        None \<Rightarrow> (Inr (), w\<lparr>dirs := insert p (dirs w), trace := trace w @ [Mkdir p]\<rparr>)
      | Some e \<Rightarrow> (Inl (FsError e), w\<lparr>trace := trace w @ [Mkdir p]\<rparr>))"
  by (simp add: fs_mkdir_def emit_def split: option.splits)

lemma ensureDir_ok:
  "probe_ok env d w \<Longrightarrow> ensureDir env d w = (Inr (), w\<lparr>trace := trace w @ [Access d]\<rparr>)"
  by (simp add: ensureDir_def fs_access_ok emit_def)

lemma ensureDir_mkdir:
  "\<not> probe_ok env d w \<Longrightarrow>
     ensureDir env d w =
       (case mkdir_fault env d of
          None \<Rightarrow> (Inr (), w\<lparr>dirs := insert d (dirs w), trace := trace w @ [Access d, Mkdir d]\<rparr>)
        | Some e \<Rightarrow> (Inl (FsError e), w\<lparr>trace := trace w @ [Access d, Mkdir d]\<rparr>))"
  using fs_access_fails [of env d w]
  by (auto simp: ensureDir_def fs_mkdir_eq emit_def split: option.splits)

lemma ensureDir_effect:
  assumes "ensureDir env d w = (r, w1)"
  shows "disk w1 = disk w"
    and "dirs w1 = (if probe_ok env d w \<or> mkdir_fault env d \<noteq> None then dirs w
                    else insert d (dirs w))"
    and "trace w1 = trace w @ (if probe_ok env d w then [Access d] else [Access d, Mkdir d])"
    and "r = (if probe_ok env d w then Inr ()
              else case mkdir_fault env d of None \<Rightarrow> Inr () | Some e \<Rightarrow> Inl (FsError e))"
  using assms
  by (cases "probe_ok env d w"; auto simp: ensureDir_ok ensureDir_mkdir split: option.splits)+

lemma process_loop_Cons_ok:
  assumes "file_ok env p"
  shows "process_loop env (p # ps) w =
           process_loop env ps
             (w\<lparr>disk := (disk w)(outputPath env p \<mapsto> optimizedSvg_of env p),
                trace := trace w @ file_events env p (optimizedSvg_of env p)\<rparr>)"
  using assms
  by (auto simp: file_ok_def optimizedSvg_of_def transformed_def fs_readFile_def
        fs_writeFile_def emit_def console_log_def file_events_def outputPath_def Let_def
        split: sum.splits)

lemma process_loop_Cons_fail:
  assumes "\<not> file_ok env p"
  shows "\<exists>e k. 0 < k \<and> k < 4 \<and> (\<forall>w. process_loop env (p # ps) w =
            (Inl e, w\<lparr>trace := trace w @ take k (file_events env p (optimizedSvg_of env p))\<rparr>))"
proof (cases "contents env p")
  case (Inl e)
  then have "\<forall>w. process_loop env (p # ps) w =
      (Inl (FsError e), w\<lparr>trace := trace w @ take 1 (file_events env p (optimizedSvg_of env p))\<rparr>)"
    by (simp add: fs_readFile_def emit_def file_events_def)
  then show ?thesis by (intro exI [of _ "FsError e"] exI [of _ 1]) simp
next
  case (Inr c)
  show ?thesis
  proof (cases "optimizeSvg env c (basename p None)")
    case (Inl e)
    then have "\<forall>w. process_loop env (p # ps) w =
        (Inl e, w\<lparr>trace := trace w @ take 2 (file_events env p (optimizedSvg_of env p))\<rparr>)"
      using Inr by (simp add: fs_readFile_def emit_def file_events_def)
    then show ?thesis by (intro exI [of _ e] exI [of _ 2]) simp
  next
    case out: (Inr out)
    then have t: "transformed env p = Inr out" using Inr by (simp add: transformed_def)
    then obtain e where e: "write_fault env (outputPath env p) = Some e"
      using assms by (auto simp: file_ok_def)
    have "\<forall>w. process_loop env (p # ps) w =
        (Inl (FsError e), w\<lparr>trace := trace w @ take 3 (file_events env p (optimizedSvg_of env p))\<rparr>)"
      using Inr out e t
      by (simp add: fs_readFile_def fs_writeFile_def emit_def file_events_def outputPath_def
            optimizedSvg_of_def Let_def)
    then show ?thesis by (intro exI [of _ "FsError e"] exI [of _ 3]) simp
  qed
qed

lemma length_file_events [simp]: "length (file_events env p out) = 4"
  by (simp add: file_events_def)

lemma loop_events_Nil [simp]: "loop_events env [] = []"
  by (simp add: loop_events_def)

lemma loop_events_Cons [simp]:
  "loop_events env (p # ps) = file_events env p (optimizedSvg_of env p) @ loop_events env ps"
  by (simp add: loop_events_def)

lemma loop_disk_Nil [simp]: "loop_disk env [] m = m"
  by (simp add: loop_disk_def)

lemma loop_disk_Cons [simp]:
  "loop_disk env (p # ps) m =
     loop_disk env ps (m(outputPath env p \<mapsto> optimizedSvg_of env p))"
  by (simp add: loop_disk_def)

lemma process_loop_ok:
  "list_all (file_ok env) ps \<Longrightarrow>
     process_loop env ps w =
       (Inr (), w\<lparr>disk := loop_disk env ps (disk w), trace := trace w @ loop_events env ps\<rparr>)"
proof (induction ps arbitrary: w)
  case Nil
  then show ?case by simp
next
  case (Cons p ps)
  then show ?case
    by (simp add: process_loop_Cons_ok del: process_loop.simps)
qed

lemma process_loop_fail:
  "\<not> list_all (file_ok env) ps \<Longrightarrow>
     \<exists>e k. 0 < k \<and> k < length (loop_events env ps) \<and>
        (\<forall>w. process_loop env ps w =
           (Inl e, w\<lparr>disk := loop_disk env (takeWhile (file_ok env) ps) (disk w),
                     trace := trace w @ take k (loop_events env ps)\<rparr>))"
proof (induction ps)
  case Nil
  then show ?case by simp
next
  case (Cons p ps)
  show ?case
  proof (cases "file_ok env p")
    case True
    with Cons obtain e k where k: "k < length (loop_events env ps)"
      and eq: "\<And>w. process_loop env ps w =
           (Inl e, w\<lparr>disk := loop_disk env (takeWhile (file_ok env) ps) (disk w),
                     trace := trace w @ take k (loop_events env ps)\<rparr>)"
      by auto
    have "\<forall>w. process_loop env (p # ps) w =
           (Inl e, w\<lparr>disk := loop_disk env (takeWhile (file_ok env) (p # ps)) (disk w),
                     trace := trace w @ take (4 + k) (loop_events env (p # ps))\<rparr>)"
      using True
      by (simp add: process_loop_Cons_ok eq del: process_loop.simps)
    moreover have "4 + k < length (loop_events env (p # ps))"
      using k by simp
    ultimately show ?thesis by (intro exI [of _ e] exI [of _ "4 + k"]) simp
  next
    case False
    then obtain e k where k: "k < 4" "0 < k"
      and eq: "\<And>w. process_loop env (p # ps) w =
            (Inl e, w\<lparr>trace := trace w @ take k (file_events env p (optimizedSvg_of env p))\<rparr>)"
      using process_loop_Cons_fail [of env p ps] by auto
    have "\<forall>w. process_loop env (p # ps) w =
           (Inl e, w\<lparr>disk := loop_disk env (takeWhile (file_ok env) (p # ps)) (disk w),
                     trace := trace w @ take k (loop_events env (p # ps))\<rparr>)"
      using False k by (simp add: eq del: process_loop.simps)
    moreover have "k < length (loop_events env (p # ps))"
      using k by simp
    ultimately show ?thesis using k by (intro exI [of _ e] exI [of _ k]) simp
  qed
qed

subsection \<open>The whole run\<close>

lemma processFiles_try_ensure_fail:
  "ensureDir env (OPTIMIZED_DIR env) w = (Inl e, w1) \<Longrightarrow> processFiles_try env w = (Inl e, w1)"
  by (simp add: processFiles_try_def)

lemma processFiles_try_ok:
  assumes "ensureDir env (OPTIMIZED_DIR env) w = (Inr u, w1)" "run_ok env"
  shows "processFiles_try env w =
           (Inr (), w1\<lparr>disk := (loop_disk env (discovered env) (disk w1))
                                 (manifestPath env \<mapsto> manifest (discovered env)),
                       trace := trace w1 @ script env\<rparr>)"
proof -
  obtain ps where ps: "getSvgFiles (RAW_DIR env) (raw_tree env) = Inr ps"
    using assms(2) by (cases "getSvgFiles (RAW_DIR env) (raw_tree env)") (auto simp: run_ok_def)
  then have d: "discovered env = ps" by (simp add: discovered_def)
  have ok: "list_all (file_ok env) ps" and wf: "write_fault env (manifestPath env) = None"
    using assms(2) d by (auto simp: run_ok_def)
  show ?thesis
    unfolding processFiles_try_def d script_def
    using assms(1) ps wf
    by (simp add: process_loop_ok [OF ok] fs_writeFile_def emit_def console_log_def)
qed

lemma take_all_but_last:
  "take (length xs + 4) (a # b # xs @ [c, d, e]) = a # b # xs @ [c, d]"
proof -
  have "a # b # xs @ [c, d, e] = (a # b # xs @ [c, d]) @ [e]" by simp
  moreover have "length xs + 4 = length (a # b # xs @ [c, d])" by simp
  ultimately show ?thesis by (metis append_eq_conv_conj)
qed

lemma processFiles_try_fail:
  assumes "\<not> run_ok env"
  shows "\<exists>e k. fails_at env e k \<and> k < length (script env) \<and>
           (\<forall>w w1 u. ensureDir env (OPTIMIZED_DIR env) w = (Inr u, w1) \<longrightarrow>
              processFiles_try env w =
                (Inl e, w1\<lparr>disk := loop_disk env (takeWhile (file_ok env) (discovered env)) (disk w1),
                          trace := trace w1 @ take k (script env)\<rparr>))"
proof (cases "getSvgFiles (RAW_DIR env) (raw_tree env)")
  case (Inl e)
  then have d: "discovered env = []" by (simp add: discovered_def)
  have "\<forall>w w1 u. ensureDir env (OPTIMIZED_DIR env) w = (Inr u, w1) \<longrightarrow>
              processFiles_try env w =
                (Inl (FsError e), w1\<lparr>disk := loop_disk env (takeWhile (file_ok env) (discovered env)) (disk w1),
                          trace := trace w1 @ take 1 (script env)\<rparr>)"
    using Inl by (simp add: processFiles_try_def d script_def emit_def)
  moreover have "(1::nat) < length (script env)" by (simp add: script_def)
  ultimately show ?thesis
    using Inl by (intro exI [of _ "FsError e"] exI [of _ 1]) (simp add: fails_at_def)
next
  case (Inr ps)
  then have d: "discovered env = ps" by (simp add: discovered_def)
  show ?thesis
  proof (cases "list_all (file_ok env) ps")
    case False
    then obtain e k where k: "k < length (loop_events env ps)" "0 < k"
      and eq: "\<And>w. process_loop env ps w =
           (Inl e, w\<lparr>disk := loop_disk env (takeWhile (file_ok env) ps) (disk w),
                     trace := trace w @ take k (loop_events env ps)\<rparr>)"
      using process_loop_fail [of env ps] by auto
    have "\<forall>w w1 u. ensureDir env (OPTIMIZED_DIR env) w = (Inr u, w1) \<longrightarrow>
              processFiles_try env w =
                (Inl e, w1\<lparr>disk := loop_disk env (takeWhile (file_ok env) (discovered env)) (disk w1),
                          trace := trace w1 @ take (2 + k) (script env)\<rparr>)"
      using Inr k by (simp add: processFiles_try_def d script_def eq emit_def console_log_def)
    moreover have "2 + k < length (script env)" using k by (simp add: script_def d)
    ultimately show ?thesis
      using Inr False k by (intro exI [of _ e] exI [of _ "2 + k"]) (simp add: fails_at_def)
  next
    case True
    then obtain e where e: "write_fault env (manifestPath env) = Some e"
      using assms Inr d by (auto simp: run_ok_def)
    have tw: "takeWhile (file_ok env) ps = ps"
      using True by (simp add: list_all_iff)
    have "\<forall>w w1 u. ensureDir env (OPTIMIZED_DIR env) w = (Inr u, w1) \<longrightarrow>
              processFiles_try env w =
                (Inl (FsError e), w1\<lparr>disk := loop_disk env (takeWhile (file_ok env) (discovered env)) (disk w1),
                          trace := trace w1 @ take (length (loop_events env ps) + 4) (script env)\<rparr>)"
      using Inr e
      by (simp add: processFiles_try_def d script_def process_loop_ok [OF True] tw
            fs_writeFile_def emit_def console_log_def take_all_but_last)
    moreover have "length (loop_events env ps) + 4 < length (script env)"
      by (simp add: script_def d)
    ultimately show ?thesis
      using Inr True e
      by (intro exI [of _ "FsError e"] exI [of _ "length (loop_events env ps) + 4"])
         (simp add: fails_at_def)
  qed
qed

lemma ensureDir_eq:
  "ensureDir env (OPTIMIZED_DIR env) w =
     (if probe_ok env (OPTIMIZED_DIR env) w then Inr ()
      else case mkdir_fault env (OPTIMIZED_DIR env) of
             None \<Rightarrow> Inr () | Some e \<Rightarrow> Inl (FsError e),
      w\<lparr>dirs := ensure_dirs env w, trace := trace w @ ensure_events env w\<rparr>)"
  by (cases "probe_ok env (OPTIMIZED_DIR env) w")
     (auto simp: ensureDir_ok ensureDir_mkdir ensure_dirs_def ensure_events_def
           split: option.splits)

lemma processFiles_ok:
  assumes "ensure_ok env w" "run_ok env"
  shows "processFiles env w =
     (0, w\<lparr>dirs := ensure_dirs env w,
           disk := (loop_disk env (discovered env) (disk w))
                     (manifestPath env \<mapsto> manifest (discovered env)),
           trace := trace w @ ensure_events env w @ script env\<rparr>)"
proof -
  have "ensureDir env (OPTIMIZED_DIR env) w =
          (Inr (), w\<lparr>dirs := ensure_dirs env w, trace := trace w @ ensure_events env w\<rparr>)"
    using assms(1) by (auto simp: ensureDir_eq ensure_ok_def)
  from processFiles_try_ok [OF this assms(2)] show ?thesis
    by (simp add: processFiles_def)
qed

lemma processFiles_ensure_fail:
  assumes "\<not> ensure_ok env w"
  shows "\<exists>e. mkdir_fault env (OPTIMIZED_DIR env) = Some e \<and>
     processFiles env w =
       (1, w\<lparr>trace := trace w @ ensure_events env w @ [ConsoleError (FsError e), Exit 1]\<rparr>)"
proof -
  from assms obtain e where e: "mkdir_fault env (OPTIMIZED_DIR env) = Some e"
    and np: "\<not> probe_ok env (OPTIMIZED_DIR env) w"
    by (auto simp: ensure_ok_def)
  have "ensureDir env (OPTIMIZED_DIR env) w =
          (Inl (FsError e), w\<lparr>trace := trace w @ ensure_events env w\<rparr>)"
    using e np by (simp add: ensureDir_eq ensure_dirs_def)
  from processFiles_try_ensure_fail [OF this]
  have "processFiles env w =
       (1, w\<lparr>trace := trace w @ ensure_events env w @ [ConsoleError (FsError e), Exit 1]\<rparr>)"
    by (simp add: processFiles_def emit_def)
  with e show ?thesis by blast
qed

lemma processFiles_run_fail:
  assumes "\<not> run_ok env"
  shows "\<exists>e k. fails_at env e k \<and> k < length (script env) \<and>
     (\<forall>w. ensure_ok env w \<longrightarrow>
       processFiles env w =
         (1, w\<lparr>dirs := ensure_dirs env w,
               disk := loop_disk env (takeWhile (file_ok env) (discovered env)) (disk w),
               trace := trace w @ ensure_events env w @ take k (script env)
                          @ [ConsoleError e, Exit 1]\<rparr>))"
proof -
  from processFiles_try_fail [OF assms] obtain e k
    where k: "fails_at env e k" "k < length (script env)"
    and eq: "\<And>w w1 u. ensureDir env (OPTIMIZED_DIR env) w = (Inr u, w1) \<Longrightarrow>
              processFiles_try env w =
                (Inl e, w1\<lparr>disk := loop_disk env (takeWhile (file_ok env) (discovered env)) (disk w1),
                          trace := trace w1 @ take k (script env)\<rparr>)"
    by blast
  have "processFiles env w =
       (1, w\<lparr>dirs := ensure_dirs env w,
             disk := loop_disk env (takeWhile (file_ok env) (discovered env)) (disk w),
             trace := trace w @ ensure_events env w @ take k (script env)
                        @ [ConsoleError e, Exit 1]\<rparr>)"
    if "ensure_ok env w" for w
  proof -
    have "ensureDir env (OPTIMIZED_DIR env) w =
          (Inr (), w\<lparr>dirs := ensure_dirs env w, trace := trace w @ ensure_events env w\<rparr>)"
      using that by (auto simp: ensureDir_eq ensure_ok_def)
    from eq [OF this] show ?thesis by (simp add: processFiles_def emit_def)
  qed
  with k show ?thesis by blast
qed

lemma processFiles_cases:
  assumes "processFiles env w = (code, w')"
  obtains
    (ok) "ensure_ok env w" "run_ok env" "code = 0"
      "new_events w w' = ensure_events env w @ script env"
      "disk w' = (loop_disk env (discovered env) (disk w))
                   (manifestPath env \<mapsto> manifest (discovered env))"
      "dirs w' = ensure_dirs env w"
  | (ensure_fail) e where "\<not> ensure_ok env w" "code = 1"
      "mkdir_fault env (OPTIMIZED_DIR env) = Some e"
      "new_events w w' = ensure_events env w @ [ConsoleError (FsError e), Exit 1]"
      "disk w' = disk w" "dirs w' = dirs w"
  | (run_fail) e k where "ensure_ok env w" "\<not> run_ok env" "code = 1"
      "fails_at env e k" "k < length (script env)"
      "new_events w w' = ensure_events env w @ take k (script env) @ [ConsoleError e, Exit 1]"
      "disk w' = loop_disk env (takeWhile (file_ok env) (discovered env)) (disk w)"
      "dirs w' = ensure_dirs env w"
proof (cases "ensure_ok env w")
  case False
  from processFiles_ensure_fail [OF False] obtain e
    where e: "mkdir_fault env (OPTIMIZED_DIR env) = Some e"
      and eq: "processFiles env w =
       (1, w\<lparr>trace := trace w @ ensure_events env w @ [ConsoleError (FsError e), Exit 1]\<rparr>)"
    by blast
  from eq assms have "code = 1"
    and w': "w' = w\<lparr>trace := trace w @ ensure_events env w @ [ConsoleError (FsError e), Exit 1]\<rparr>"
    by simp_all
  show ?thesis
    by (rule ensure_fail [OF False \<open>code = 1\<close> e]) (simp_all add: w' new_events_def)
next
  case True
  show ?thesis
  proof (cases "run_ok env")
    case ok': True
    from processFiles_ok [OF True ok'] assms have "code = 0"
      and w': "w' = w\<lparr>dirs := ensure_dirs env w,
           disk := (loop_disk env (discovered env) (disk w))
                     (manifestPath env \<mapsto> manifest (discovered env)),
           trace := trace w @ ensure_events env w @ script env\<rparr>"
      by simp_all
    show ?thesis
      by (rule ok [OF True ok' \<open>code = 0\<close>]) (simp_all add: w' new_events_def)
  next
    case False
    from processFiles_run_fail [OF False] True obtain e k
      where k: "fails_at env e k" "k < length (script env)"
        and eq: "processFiles env w =
       (1, w\<lparr>dirs := ensure_dirs env w,
             disk := loop_disk env (takeWhile (file_ok env) (discovered env)) (disk w),
             trace := trace w @ ensure_events env w @ take k (script env)
                        @ [ConsoleError e, Exit 1]\<rparr>)"
      by blast
    from eq assms have "code = 1"
      and w': "w' = w\<lparr>dirs := ensure_dirs env w,
             disk := loop_disk env (takeWhile (file_ok env) (discovered env)) (disk w),
             trace := trace w @ ensure_events env w @ take k (script env)
                        @ [ConsoleError e, Exit 1]\<rparr>"
      by simp_all
    show ?thesis
      by (rule run_fail [OF True False \<open>code = 1\<close> k]) (simp_all add: w' new_events_def)
  qed
qed

subsection \<open>Writes, the disk and the discovered files\<close>

lemma writes_iff: "(p, d) \<in> set (writes evs) \<longleftrightarrow> WriteFile p d \<in> set evs"
  by (induction evs rule: writes.induct) auto

lemma writes_loop_events:
  "writes (loop_events env ps) = map (\<lambda>p. (outputPath env p, optimizedSvg_of env p)) ps"
  by (induction ps) (simp_all add: file_events_def)

lemma writes_take_loop_events:
  "(q, d) \<in> set (writes (take k (loop_events env ps))) \<Longrightarrow> q \<in> outputPath env ` set ps"
proof -
  assume "(q, d) \<in> set (writes (take k (loop_events env ps)))"
  then have "WriteFile q d \<in> set (take k (loop_events env ps))" by (simp add: writes_iff)
  then have "WriteFile q d \<in> set (loop_events env ps)" by (rule in_set_takeD)
  then have "(q, d) \<in> set (writes (loop_events env ps))" by (simp add: writes_iff)
  then show ?thesis by (auto simp: writes_loop_events)
qed

lemma loop_disk_other:
  "q \<notin> outputPath env ` set ps \<Longrightarrow> loop_disk env ps m q = m q"
  by (induction ps arbitrary: m) auto

lemma dom_loop_disk: "dom (loop_disk env ps m) = dom m \<union> outputPath env ` set ps"
  by (induction ps arbitrary: m) auto

lemma loop_disk_written:
  "p \<in> set ps \<Longrightarrow> loop_disk env ps m (outputPath env p) \<noteq> None"
  using dom_loop_disk [of env ps m] by blast

lemma map_add_upd_front: "m(k \<mapsto> v) ++ M = m ++ ([k \<mapsto> v] ++ M)"
  by (rule ext) (simp add: map_add_def split: option.splits)

lemma loop_disk_add: "loop_disk env ps m = m ++ loop_disk env ps Map.empty"
proof (induction ps arbitrary: m)
  case Nil
  then show ?case by simp
next
  case (Cons p ps)
  let ?u = "[outputPath env p \<mapsto> optimizedSvg_of env p]"
  have "loop_disk env (p # ps) m
          = loop_disk env ps (m(outputPath env p \<mapsto> optimizedSvg_of env p))"
    by (rule loop_disk_Cons)
  also have "\<dots> = m(outputPath env p \<mapsto> optimizedSvg_of env p) ++ loop_disk env ps Map.empty"
    by (rule Cons.IH)
  also have "\<dots> = m ++ (?u ++ loop_disk env ps Map.empty)"
    by (rule map_add_upd_front)
  also have "?u ++ loop_disk env ps Map.empty = loop_disk env ps ?u"
    by (rule Cons.IH [symmetric])
  also have "loop_disk env ps ?u = loop_disk env (p # ps) Map.empty"
    by (simp only: loop_disk_Cons)
  finally show ?case .
qed

lemma discovered_Inr:
  "getSvgFiles (RAW_DIR env) (raw_tree env) = Inr ps \<Longrightarrow> discovered env = ps"
  by (simp add: discovered_def)

lemma discovered_basename:
  assumes "p \<in> set (discovered env)"
  shows "\<exists>name. basename p None = name \<and> svg_name name \<and> name \<noteq> []
           \<and> CHAR_FORWARD_SLASH \<notin> set name
           \<and> basename p (Some ''.svg'') = (if name = ''.svg'' then name else strip_suffix name ''.svg'')
           \<and> basename (outputPath env p) (Some ''.svg'') = basename p (Some ''.svg'')"
proof -
  from assms obtain ps where ps: "getSvgFiles (RAW_DIR env) (raw_tree env) = Inr ps" "p \<in> set ps"
    by (cases "getSvgFiles (RAW_DIR env) (raw_tree env)") (auto simp: discovered_def)
  from discovered_segment [OF this] obtain pre name
    where d: "p = pre @ CHAR_FORWARD_SLASH # name" "name \<noteq> []"
      "CHAR_FORWARD_SLASH \<notin> set name" "svg_name name" by blast
  have n: "basename p None = name" unfolding d(1) by (rule basename_None_segment(1) [OF d(2,3)])
  have ns: "CHAR_FORWARD_SLASH \<notin> set ''.svg''" by (simp add: CHAR_FORWARD_SLASH_def)
  have s: "basename p (Some ''.svg'') = (if ''.svg'' = name then name else strip_suffix name ''.svg'')"
    unfolding d(1) by (rule basename_Some_segment(1) [OF d(2,3) ns])
  obtain pre' where o: "outputPath env p = pre' @ CHAR_FORWARD_SLASH # name"
    using path_join_segment [of "OPTIMIZED_DIR env" name] n by (auto simp: outputPath_def)
  have "basename (outputPath env p) (Some ''.svg'')
          = (if ''.svg'' = name then name else strip_suffix name ''.svg'')"
    unfolding o by (rule basename_Some_segment(1) [OF d(2,3) ns])
  with n s d show ?thesis by (auto simp: eq_commute)
qed

lemma outputPath_not_manifest:
  assumes "p \<in> set (discovered env)"
  shows "outputPath env p \<noteq> manifestPath env"
proof -
  from discovered_basename [OF assms] have "svg_name (basename p None)" by auto
  moreover have "\<not> svg_name ''manifest.json''" by (simp add: svg_name_def)
  ultimately have "basename p None \<noteq> ''manifest.json''" by auto
  then show ?thesis by (simp add: outputPath_def manifestPath_def)
qed

lemma writes_ensure_events [simp]: "writes (ensure_events env w) = []"
  by (simp add: ensure_events_def)

lemma script_Cons:
  "script env = Readdir (RAW_DIR env) # Log (Found (length (discovered env)))
     # loop_events env (discovered env)
     @ [Log (Complete (length (discovered env))),
        WriteFile (manifestPath env) (manifest (discovered env)),
        Log (ManifestCreated (manifestPath env))]"
  by (simp add: script_def)

lemma take_script_1: "take (Suc 0) (script env) = [Readdir (RAW_DIR env)]"
  by (simp add: script_Cons)

lemma take_script_loop:
  assumes "2 < k" "k < 2 + length (loop_events env (discovered env))"
  shows "take k (script env) =
           Readdir (RAW_DIR env) # Log (Found (length (discovered env)))
             # take (k - 2) (loop_events env (discovered env))"
proof -
  obtain j where j: "k = Suc (Suc j)" using assms(1) by (cases k rule: nat.exhaust; cases "k - 1") auto
  then show ?thesis using assms(2) by (simp add: script_Cons)
qed

lemma discovery_fails:
  assumes "getSvgFiles (RAW_DIR env) (raw_tree env) = Inl err"
  shows "\<not> run_ok env" and "discovered env = []"
    and "fails_at env e k \<longleftrightarrow> k = 1 \<and> e = FsError err"
  using assms by (simp_all add: run_ok_def discovered_def fails_at_def)

lemma probe_ok_mono:
  "probe_ok env p w \<Longrightarrow> dirs w \<subseteq> dirs w1 \<Longrightarrow> dom (disk w) \<subseteq> dom (disk w1)
     \<Longrightarrow> probe_ok env p w1"
  by (auto simp: probe_ok_def)

lemma probe_ok_cong:
  "dirs w1 = dirs w \<Longrightarrow> disk w1 = disk w \<Longrightarrow> probe_ok env p w1 = probe_ok env p w"
  by (simp add: probe_ok_def)

lemma dirs_ensure_dirs: "dirs w \<subseteq> ensure_dirs env w"
  by (auto simp: ensure_dirs_def)

lemma ensure_again:
  assumes "ensure_ok env w" "dirs w1 = ensure_dirs env w" "dom (disk w) \<subseteq> dom (disk w1)"
  shows "ensure_ok env w1" and "ensure_dirs env w1 = dirs w1"
    and "writes (ensure_events env w1) = writes (ensure_events env w)"
proof -
  have sub: "dirs w \<subseteq> dirs w1" using assms(2) dirs_ensure_dirs by simp
  show "ensure_ok env w1"
    using assms(1) probe_ok_mono [OF _ sub assms(3)] by (auto simp: ensure_ok_def)
  show "ensure_dirs env w1 = dirs w1"
  proof (cases "probe_ok env (OPTIMIZED_DIR env) w")
    case True
    then have "probe_ok env (OPTIMIZED_DIR env) w1" by (rule probe_ok_mono [OF _ sub assms(3)])
    then show ?thesis by (simp add: ensure_dirs_def)
  next
    case False
    then have "mkdir_fault env (OPTIMIZED_DIR env) = None"
      using assms(1) by (simp add: ensure_ok_def)
    with False have "OPTIMIZED_DIR env \<in> dirs w1"
      using assms(2) by (simp add: ensure_dirs_def)
    then show ?thesis by (auto simp: ensure_dirs_def)
  qed
  show "writes (ensure_events env w1) = writes (ensure_events env w)" by simp
qed

lemma map_add_twice: "(m ++ L) ++ L = m ++ L"
  by (rule ext) (simp add: map_add_def split: option.splits)

lemma map_add_upd_twice: "(((m ++ L)(k \<mapsto> v)) ++ L)(k \<mapsto> v) = (m ++ L)(k \<mapsto> v)"
  by (rule ext) (simp add: map_add_def split: option.splits)

lemma take_script_ge2:
  "2 \<le> k \<Longrightarrow> take k (script env) =
     Readdir (RAW_DIR env) # Log (Found (length (discovered env)))
       # take (k - 2) (loop_events env (discovered env)
           @ [Log (Complete (length (discovered env))),
              WriteFile (manifestPath env) (manifest (discovered env)),
              Log (ManifestCreated (manifestPath env))])"
proof -
  assume "2 \<le> k"
  then obtain j where "k = Suc (Suc j)" by (metis Suc_le_D numeral_2_eq_2 Suc_le_mono)
  then show ?thesis by (simp add: script_Cons)
qed

lemma no_processing_ensure [simp]: "\<not> list_ex is_processing (ensure_events env w)"
  by (simp add: ensure_events_def)

lemma manifest_not_in_loop:
  "(manifestPath env, m) \<notin> set (writes (take k (loop_events env (discovered env))))"
proof
  assume "(manifestPath env, m) \<in> set (writes (take k (loop_events env (discovered env))))"
  then have "manifestPath env \<in> outputPath env ` set (discovered env)"
    by (rule writes_take_loop_events)
  then obtain p where "p \<in> set (discovered env)" "manifestPath env = outputPath env p" by auto
  with outputPath_not_manifest [of p env] show False by simp
qed

lemma manifest_not_in_loop_all:
  "(manifestPath env, m) \<notin> set (writes (loop_events env (discovered env)))"
  using manifest_not_in_loop [of env m "length (loop_events env (discovered env))"] by simp

lemma take_script_manifest_write:
  "take (length (loop_events env (discovered env)) + 4) (script env) =
     Readdir (RAW_DIR env) # Log (Found (length (discovered env)))
       # loop_events env (discovered env)
       @ [Log (Complete (length (discovered env))),
          WriteFile (manifestPath env) (manifest (discovered env))]"
  by (simp add: script_Cons take_all_but_last)

subsection \<open>Where a run stops\<close>

lemma file_stop_None: "file_stop env p = None \<longleftrightarrow> file_ok env p"
  by (auto simp: file_stop_def file_ok_def transformed_def optimizeSvg_def
        split: sum.splits option.splits)

lemma process_loop_stop_here:
  assumes "file_stop env p = Some (evs, e)"
  shows "process_loop env (p # rest) w = (Inl e, w\<lparr>trace := trace w @ evs\<rparr>)"
  using assms
  by (auto simp: file_stop_def optimizeSvg_def fs_readFile_def fs_writeFile_def emit_def
        outputPath_def Let_def split: sum.splits option.splits)

lemma process_loop_stop:
  assumes "list_all (file_ok env) done" "file_stop env p = Some (evs, e)"
  shows "process_loop env (done @ p # rest) w =
           (Inl e, w\<lparr>disk := loop_disk env done (disk w),
                     trace := trace w @ loop_events env done @ evs\<rparr>)"
  using assms(1)
proof (induction "done" arbitrary: w)
  case Nil
  show ?case using process_loop_stop_here [OF assms(2)] by simp
next
  case (Cons q qs)
  then show ?case
    by (simp add: process_loop_Cons_ok del: process_loop.simps)
qed

lemma ensureDir_Inr:
  "ensure_ok env w \<Longrightarrow> ensureDir env (OPTIMIZED_DIR env) w =
     (Inr (), w\<lparr>dirs := ensure_dirs env w, trace := trace w @ ensure_events env w\<rparr>)"
  by (auto simp: ensureDir_eq ensure_ok_def)

lemma processFiles_discovery_stop:
  assumes "ensure_ok env w" "getSvgFiles (RAW_DIR env) (raw_tree env) = Inl err"
  shows "processFiles env w =
     (1, w\<lparr>dirs := ensure_dirs env w,
           trace := trace w @ ensure_events env w
                      @ [Readdir (RAW_DIR env), ConsoleError (FsError err), Exit 1]\<rparr>)"
  using assms(2)
  by (simp add: processFiles_def processFiles_try_def ensureDir_Inr [OF assms(1)] emit_def)

lemma processFiles_file_stop:
  assumes "ensure_ok env w"
      and "getSvgFiles (RAW_DIR env) (raw_tree env) = Inr (done @ p # rest)"
      and "list_all (file_ok env) done" and "file_stop env p = Some (evs, e)"
  shows "processFiles env w =
     (1, w\<lparr>dirs := ensure_dirs env w,
           disk := loop_disk env done (disk w),
           trace := trace w @ ensure_events env w
                      @ [Readdir (RAW_DIR env), Log (Found (length (done @ p # rest)))]
                      @ loop_events env done @ evs @ [ConsoleError e, Exit 1]\<rparr>)"
  using assms(2)
  by (simp add: processFiles_def processFiles_try_def ensureDir_Inr [OF assms(1)]
        process_loop_stop [OF assms(3,4)] emit_def console_log_def del: process_loop.simps)

lemma processFiles_manifest_stop:
  assumes "ensure_ok env w"
      and "getSvgFiles (RAW_DIR env) (raw_tree env) = Inr ps"
      and "list_all (file_ok env) ps" and "write_fault env (manifestPath env) = Some err"
  shows "processFiles env w =
     (1, w\<lparr>dirs := ensure_dirs env w,
           disk := loop_disk env ps (disk w),
           trace := trace w @ ensure_events env w
                      @ [Readdir (RAW_DIR env), Log (Found (length ps))]
                      @ loop_events env ps
                      @ [Log (Complete (length ps)), WriteFile (manifestPath env) (manifest ps),
                         ConsoleError (FsError err), Exit 1]\<rparr>)"
  using assms(2,4)
  by (simp add: processFiles_def processFiles_try_def ensureDir_Inr [OF assms(1)]
        process_loop_ok [OF assms(3)] fs_writeFile_def emit_def console_log_def
        del: process_loop.simps)

lemma processFiles_mkdir_stop:
  assumes "\<not> probe_ok env (OPTIMIZED_DIR env) w" "mkdir_fault env (OPTIMIZED_DIR env) = Some err"
  shows "processFiles env w =
     (1, w\<lparr>trace := trace w @ [Access (OPTIMIZED_DIR env), Mkdir (OPTIMIZED_DIR env),
                                ConsoleError (FsError err), Exit 1]\<rparr>)"
  using assms
  by (simp add: processFiles_def processFiles_try_def ensureDir_mkdir emit_def)

lemma all_file_ok: "list_all (file_ok env) ps \<longleftrightarrow> (\<forall>p\<in>set ps. file_stop env p = None)"
  by (simp add: list_all_iff file_stop_None)

lemma run_ok_iff:
  "run_ok env \<longleftrightarrow>
     (\<exists>allSvgFiles. getSvgFiles (RAW_DIR env) (raw_tree env) = Inr allSvgFiles
        \<and> (\<forall>p\<in>set allSvgFiles. file_stop env p = None)
        \<and> write_fault env (manifestPath env) = None)"
  by (cases "getSvgFiles (RAW_DIR env) (raw_tree env)")
     (auto simp: run_ok_def discovered_def all_file_ok)

lemma loop_disk_manifest:
  assumes "set ps \<subseteq> set (discovered env)"
  shows "loop_disk env ps m (manifestPath env) = m (manifestPath env)"
proof (rule loop_disk_other)
  show "manifestPath env \<notin> outputPath env ` set ps"
  proof
    assume "manifestPath env \<in> outputPath env ` set ps"
    then obtain p where "p \<in> set ps" "manifestPath env = outputPath env p" by auto
    with outputPath_not_manifest [of p env] assms show False by auto
  qed
qed

lemma aborted_mkdir:
  assumes "processFiles env w = (code, w')"
      and "\<not> probe_ok env (OPTIMIZED_DIR env) w" "mkdir_fault env (OPTIMIZED_DIR env) = Some err"
  shows "aborted env w code w' [Access (OPTIMIZED_DIR env), Mkdir (OPTIMIZED_DIR env)] (FsError err)"
  using assms(1) unfolding processFiles_mkdir_stop [OF assms(2,3)]
  by (auto simp: aborted_def new_events_def)

lemma aborted_discovery:
  assumes "processFiles env w = (code, w')" and "ensure_ok env w"
      and "getSvgFiles (RAW_DIR env) (raw_tree env) = Inl err"
  shows "aborted env w code w' (ensure_events env w @ [Readdir (RAW_DIR env)]) (FsError err)"
  using assms(1) unfolding processFiles_discovery_stop [OF assms(2,3)]
  by (auto simp: aborted_def new_events_def)

lemma aborted_file:
  assumes "processFiles env w = (code, w')" and "ensure_ok env w"
      and g: "getSvgFiles (RAW_DIR env) (raw_tree env) = Inr (done @ filePath # rest)"
      and "\<forall>p\<in>set done. file_stop env p = None" and "file_stop env filePath = Some (evs, e)"
  shows "aborted env w code w'
           (ensure_events env w
            @ [Readdir (RAW_DIR env), Log (Found (length (done @ filePath # rest)))]
            @ loop_events env done @ evs) e"
proof -
  have ok: "list_all (file_ok env) done" using assms(4) by (simp add: all_file_ok)
  have "set done \<subseteq> set (discovered env)" using discovered_Inr [OF g] by auto
  from loop_disk_manifest [OF this] assms(1) show ?thesis
    unfolding processFiles_file_stop [OF assms(2) g ok assms(5)]
    by (auto simp: aborted_def new_events_def)
qed

lemma aborted_manifest:
  assumes "processFiles env w = (code, w')" and "ensure_ok env w"
      and g: "getSvgFiles (RAW_DIR env) (raw_tree env) = Inr allSvgFiles"
      and "\<forall>p\<in>set allSvgFiles. file_stop env p = None"
      and "write_fault env (manifestPath env) = Some err"
  shows "aborted env w code w'
           (ensure_events env w
            @ [Readdir (RAW_DIR env), Log (Found (length allSvgFiles))]
            @ loop_events env allSvgFiles
            @ [Log (Complete (length allSvgFiles)),
               WriteFile (manifestPath env) (manifest allSvgFiles)])
           (FsError err)"
proof -
  have ok: "list_all (file_ok env) allSvgFiles" using assms(4) by (simp add: all_file_ok)
  have "set allSvgFiles \<subseteq> set (discovered env)" using discovered_Inr [OF g] by auto
  from loop_disk_manifest [OF this] assms(1) show ?thesis
    unfolding processFiles_manifest_stop [OF assms(2) g ok assms(5)]
    by (auto simp: aborted_def new_events_def)
qed

lemma exit_code:
  assumes "processFiles env w = (code, w')"
  shows "code = 0 \<longleftrightarrow> ensure_ok env w \<and> run_ok env" and "code = 0 \<or> code = 1"
  using assms by (cases rule: processFiles_cases; simp)+

lemma engine_throw_run:
  assumes "getSvgFiles (RAW_DIR env) (raw_tree env) = Inr allSvgFiles"
      and "filePath \<in> set allSvgFiles"
      and "contents env filePath = Inr content"
      and "engine env content (optimizeSvg_config (basename filePath None)) = Inl msg"
      and "processFiles env w = (code, w')"
  shows "code = 1
       \<and> disk w' (manifestPath env) = disk w (manifestPath env)
       \<and> manifestPath env \<notin> fst ` set (writes (new_events w w'))"
proof -
  have d: "discovered env = allSvgFiles" using assms(1) by (rule discovered_Inr)
  have "transformed env filePath = Inl (TransformError msg)"
    using assms(3,4) by (simp add: transformed_def optimizeSvg_def)
  then have "\<not> file_ok env filePath" by (simp add: file_ok_def)
  then have bad: "\<not> list_all (file_ok env) allSvgFiles"
    using assms(2) by (auto simp: list_all_iff)
  then have nr: "\<not> run_ok env" using d by (simp add: run_ok_def)
  have nm: "manifestPath env \<notin> outputPath env ` set allSvgFiles"
  proof
    assume "manifestPath env \<in> outputPath env ` set allSvgFiles"
    then obtain p where "p \<in> set allSvgFiles" "manifestPath env = outputPath env p" by auto
    with outputPath_not_manifest [of p env] d show False by simp
  qed
  from assms(5) show ?thesis
  proof (cases rule: processFiles_cases)
    case ok
    with nr show ?thesis by simp
  next
    case (ensure_fail e)
    then show ?thesis by simp
  next
    case (run_fail e k)
    then have k: "2 < k" "k < 2 + length (loop_events env allSvgFiles)"
      using assms(1) bad by (simp_all add: fails_at_def)
    have t: "take k (script env) =
           Readdir (RAW_DIR env) # Log (Found (length allSvgFiles))
             # take (k - 2) (loop_events env allSvgFiles)"
      using take_script_loop [of k env] k d by simp
    have w: "\<And>q c. (q, c) \<in> set (writes (new_events w w')) \<Longrightarrow> q \<in> outputPath env ` set allSvgFiles"
      using run_fail(6) t writes_take_loop_events [of _ _ "k - 2" env allSvgFiles] by auto
    have 1: "manifestPath env \<notin> fst ` set (writes (new_events w w'))"
      using w nm by force
    have "set (takeWhile (file_ok env) allSvgFiles) \<subseteq> set allSvgFiles"
      by (auto dest: set_takeWhileD)
    then have "manifestPath env \<notin> outputPath env ` set (takeWhile (file_ok env) allSvgFiles)"
      using nm by blast
    then have 2: "disk w' (manifestPath env) = disk w (manifestPath env)"
      using run_fail(7) d by (simp add: loop_disk_other)
    from run_fail(3) 1 2 show ?thesis by blast
  qed
qed

lemma follow_files:
  "list_all (file_ok env) ps \<Longrightarrow>
     follow (map (file_stage env) ps @ later) =
       (loop_events env ps @ fst (follow later), snd (follow later))"
proof (induction ps)
  case Nil
  then show ?case by simp
next
  case (Cons p ps)
  then have "file_stop env p = None" by (simp add: file_stop_None)
  then have "file_stage env p = (file_events env p (optimizedSvg_of env p), None)"
    by (simp add: file_stage_def)
  with Cons show ?case by simp
qed

lemma follow_file_stop:
  assumes "list_all (file_ok env) done" "file_stop env p = Some (evs, e)"
  shows "follow (map (file_stage env) (done @ p # rest) @ later) =
           (loop_events env done @ evs, Some e)"
proof -
  have "file_stage env p = (evs, Some e)" using assms(2) by (simp add: file_stage_def)
  then have "follow (map (file_stage env) (p # rest) @ later) = (evs, Some e)" by simp
  with follow_files [OF assms(1), of "map (file_stage env) (p # rest) @ later"]
  show ?thesis by simp
qed

lemma first_bad_file:
  assumes "\<not> list_all (file_ok env) ps"
  obtains "done" p rest evs e
  where "ps = done @ p # rest" "list_all (file_ok env) done" "file_stop env p = Some (evs, e)"
proof -
  from assms have "\<exists>p\<in>set ps. \<not> file_ok env p" by (simp add: list_all_iff)
  from split_list_first_prop [OF this] obtain ys p zs
    where s: "ps = ys @ p # zs" "\<not> file_ok env p" "\<forall>y\<in>set ys. \<not> \<not> file_ok env y" by blast
  from s(2) obtain evs e where "file_stop env p = Some (evs, e)"
    using file_stop_None [of env p] by (cases "file_stop env p") auto
  moreover have "list_all (file_ok env) ys" using s(3) by (simp add: list_all_iff)
  ultimately show ?thesis using s(1) that by blast
qed

lemma run_stages:
  assumes "processFiles env w = (code, w')"
  shows "case follow (stages env w) of
           (evs, None) \<Rightarrow> code = 0 \<and> new_events w w' = evs
         | (evs, Some e) \<Rightarrow> code = 1 \<and> new_events w w' = evs @ [ConsoleError e, Exit 1]"
proof (cases "ensure_ok env w")
  case False
  then obtain err where e: "\<not> probe_ok env (OPTIMIZED_DIR env) w"
      "mkdir_fault env (OPTIMIZED_DIR env) = Some err"
    by (auto simp: ensure_ok_def)
  then have "follow (stages env w) = (ensure_events env w, Some (FsError err))"
    by (simp add: stages_def ensure_error_def)
  moreover have "ensure_events env w = [Access (OPTIMIZED_DIR env), Mkdir (OPTIMIZED_DIR env)]"
    using e(1) by (simp add: ensure_events_def)
  ultimately show ?thesis using aborted_mkdir [OF assms e] by (simp add: aborted_def)
next
  case True
  then have ee: "ensure_error env w = None" by (auto simp: ensure_error_def ensure_ok_def)
  show ?thesis
  proof (cases "getSvgFiles (RAW_DIR env) (raw_tree env)")
    case (Inl err)
    then have "follow (stages env w) = (ensure_events env w @ [Readdir (RAW_DIR env)], Some (FsError err))"
      by (simp add: stages_def ee discovery_error_def)
    then show ?thesis using aborted_discovery [OF assms True Inl] by (simp add: aborted_def)
  next
    case (Inr ps)
    then have d: "discovered env = ps" by (rule discovered_Inr)
    have de: "discovery_error env = None" using Inr by (simp add: discovery_error_def)
    let ?later = "[([Log (Complete (length ps))], None),
        ([WriteFile (manifestPath env) (manifest ps)],
         map_option FsError (write_fault env (manifestPath env))),
        ([Log (ManifestCreated (manifestPath env))], None)]"
    have st: "follow (stages env w) =
            (ensure_events env w @ [Readdir (RAW_DIR env), Log (Found (length ps))]
               @ fst (follow (map (file_stage env) ps @ ?later)),
             snd (follow (map (file_stage env) ps @ ?later)))"
      by (simp add: stages_def ee de d split: prod.splits)
    show ?thesis
    proof (cases "list_all (file_ok env) ps")
      case False
      then obtain "done" p rest evs e
        where s: "ps = done @ p # rest" "list_all (file_ok env) done"
          "file_stop env p = Some (evs, e)"
        by (rule first_bad_file)
      have "follow (stages env w) =
            (ensure_events env w @ [Readdir (RAW_DIR env), Log (Found (length ps))]
               @ loop_events env done @ evs, Some e)"
        unfolding st unfolding s(1) follow_file_stop [OF s(2,3)] by simp
      moreover have "aborted env w code w'
           (ensure_events env w
            @ [Readdir (RAW_DIR env), Log (Found (length (done @ p # rest)))]
            @ loop_events env done @ evs) e"
        using aborted_file [OF assms True Inr [unfolded s(1)] _ s(3)] s(2)
        by (simp add: all_file_ok)
      ultimately show ?thesis by (simp add: aborted_def s(1))
    next
      case ok: True
      note ff = follow_files [OF ok, of ?later]
      show ?thesis
      proof (cases "write_fault env (manifestPath env)")
        case None
        then have "run_ok env" using Inr ok d by (simp add: run_ok_def)
        from processFiles_ok [OF True this] assms
        have "code = 0" "new_events w w' = ensure_events env w @ script env"
          by (auto simp: new_events_def)
        moreover have "follow (stages env w) = (ensure_events env w @ script env, None)"
          unfolding st ff using None by (simp add: script_def d)
        ultimately show ?thesis by simp
      next
        case (Some err)
        have "follow (stages env w) =
            (ensure_events env w @ [Readdir (RAW_DIR env), Log (Found (length ps))]
               @ loop_events env ps
               @ [Log (Complete (length ps)), WriteFile (manifestPath env) (manifest ps)],
             Some (FsError err))"
          unfolding st ff using Some by simp
        moreover have "aborted env w code w'
           (ensure_events env w
            @ [Readdir (RAW_DIR env), Log (Found (length ps))]
            @ loop_events env ps
            @ [Log (Complete (length ps)), WriteFile (manifestPath env) (manifest ps)])
           (FsError err)"
          using aborted_manifest [OF assms True Inr _ Some] ok by (simp add: all_file_ok)
        ultimately show ?thesis by (simp add: aborted_def)
      qed
    qed
  qed
qed

lemma follow_stages_nonempty: "fst (follow (stages env w)) \<noteq> []"
proof -
  have "ensure_events env w \<noteq> []" by (simp add: ensure_events_def)
  then show ?thesis
    by (cases "ensure_error env w") (simp_all add: stages_def split: prod.splits)
qed

lemma run_prefix_of_plan:
  assumes "processFiles env w = (code, w')"
  shows "(code = 0 \<and> new_events w w' = ensure_events env w @ script env
               \<and> getSvgFiles (RAW_DIR env) (raw_tree env) = Inr (discovered env))
          \<or> (code = 1 \<and> (\<exists>k e. k < length (ensure_events env w @ script env)
                \<and> new_events w w' = take k (ensure_events env w @ script env)
                      @ [ConsoleError e, Exit 1]))"
  using assms
proof (cases rule: processFiles_cases)
  case ok
  then have "getSvgFiles (RAW_DIR env) (raw_tree env) = Inr (discovered env)"
    by (cases "getSvgFiles (RAW_DIR env) (raw_tree env)") (auto simp: run_ok_def discovered_def)
  with ok show ?thesis by simp
next
  case (ensure_fail e)
  then have len: "length (ensure_events env w) = 2"
    by (auto simp: ensure_events_def ensure_ok_def)
  have "2 < length (ensure_events env w @ script env)
          \<and> new_events w w' = take 2 (ensure_events env w @ script env)
                @ [ConsoleError (FsError e), Exit 1]"
    using ensure_fail len by (simp add: script_def)
  with ensure_fail(2) show ?thesis by blast
next
  case (run_fail e k)
  have "length (ensure_events env w) + k < length (ensure_events env w @ script env)
          \<and> new_events w w' = take (length (ensure_events env w) + k) (ensure_events env w @ script env)
                @ [ConsoleError e, Exit 1]"
    using run_fail by simp
  with run_fail(3) show ?thesis by blast
qed

section \<open>Sample runs\<close>

lemma repo_paths:
  assumes "cwd env = ''/repo''"
  shows "RAW_DIR env = ''/repo/raw''" "OPTIMIZED_DIR env = ''/repo/optimized''"
    "manifestPath env = ''/repo/optimized/manifest.json''"
  using assms
  by (simp_all add: OPTIMIZED_DIR_def RAW_DIR_def manifestPath_def path_resolve_def path_join_def)

lemma demo_env_fields [simp]:
  "cwd demo_env = ''/repo''" "raw_tree demo_env = demo_tree"
  "contents demo_env p = Inr ''<svg><path/></svg>''"
  "engine demo_env svgContent cfg = Inr (''<!--'' @ path cfg @ ''-->'' @ svgContent)"
  "access_fault demo_env p = None" "mkdir_fault demo_env p = None"
  "write_fault demo_env p = None"
  by (simp_all add: demo_env_def)

lemma empty_env_fields [simp]:
  "cwd empty_env = ''/repo''" "raw_tree empty_env = Entries []"
  "access_fault empty_env p = None" "mkdir_fault empty_env p = None"
  "write_fault empty_env p = None"
  by (simp_all add: empty_env_def)

lemma fresh_fields [simp]: "dirs fresh = {}" "disk fresh = Map.empty" "trace fresh = []"
  by (simp_all add: fresh_def)

lemma ensure_fresh:
  assumes "access_fault env (OPTIMIZED_DIR env) = None" "mkdir_fault env (OPTIMIZED_DIR env) = None"
  shows "ensure_ok env fresh"
    and "ensure_events env fresh = [Access (OPTIMIZED_DIR env), Mkdir (OPTIMIZED_DIR env)]"
    and "ensure_dirs env fresh = {OPTIMIZED_DIR env}"
  using assms by (simp_all add: ensure_ok_def ensure_events_def ensure_dirs_def probe_ok_def)

lemma empty_env_ok: "run_ok empty_env" "discovered empty_env = []"
  by (simp_all add: run_ok_def discovered_def)

lemma empty_run:
  "processFiles empty_env fresh =
     (0, fresh\<lparr>dirs := {''/repo/optimized''},
          disk := [''/repo/optimized/manifest.json'' \<mapsto> manifest []],
          trace := [Access ''/repo/optimized'', Mkdir ''/repo/optimized'',
                   Readdir ''/repo/raw'', Log (Found 0), Log (Complete 0),
                   WriteFile ''/repo/optimized/manifest.json'' (manifest []),
                   Log (ManifestCreated ''/repo/optimized/manifest.json'')]\<rparr>)"
proof -
  note p = repo_paths [of empty_env, simplified]
  note e = ensure_fresh [of empty_env, simplified, unfolded p]
  from processFiles_ok [OF e(1) empty_env_ok(1)] show ?thesis
    by (simp add: e p empty_env_ok script_def)
qed

lemma broken_env_fields [simp]:
  "cwd broken_env = ''/repo''" "raw_tree broken_env = demo_tree"
  "contents broken_env p = Inr ''<svg><path/></svg>''"
  "engine broken_env svgContent cfg =
     (if path cfg = ''Arrow.SVG'' then Inl ''malformed'' else Inr svgContent)"
  "access_fault broken_env p = None" "mkdir_fault broken_env p = None"
  "write_fault broken_env p = None"
  by (simp_all add: broken_env_def)

lemma no_raw_env_fields [simp]:
  "cwd no_raw_env = ''/repo''" "raw_tree no_raw_env = ReaddirError ENOENT"
  "access_fault no_raw_env p = None" "mkdir_fault no_raw_env p = None"
  by (simp_all add: no_raw_env_def)

lemma denied_env_fields [simp]:
  "cwd denied_env = ''/repo''" "raw_tree denied_env = ReaddirError ENOENT"
  "access_fault denied_env p = Some EACCES" "mkdir_fault denied_env p = None"
  by (simp_all add: denied_env_def)

lemma upper_env_fields [simp]:
  "cwd upper_env = ''/repo''" "raw_tree upper_env = Entries [File ''icon.SVG'']"
  "contents upper_env p = Inr ''<svg><path/></svg>''"
  "engine upper_env svgContent cfg = Inr (''<!--'' @ path cfg @ ''-->'' @ svgContent)"
  "access_fault upper_env p = None" "mkdir_fault upper_env p = None"
  "write_fault upper_env p = None"
  by (simp_all add: upper_env_def)

lemma existing_fields [simp]:
  "dirs existing = {''/repo/optimized''}" "disk existing = Map.empty" "trace existing = []"
  by (simp_all add: existing_def)

lemma demo_files:
  "getSvgFiles ''/repo/raw'' demo_tree = Inr [''/repo/raw/lock.svg'', ''/repo/raw/nav/Arrow.SVG'']"
  by code_simp

lemma upper_files:
  "getSvgFiles ''/repo/raw'' (Entries [File ''icon.SVG'']) = Inr [''/repo/raw/icon.SVG'']"
  by code_simp

lemma demo_basenames:
  "basename ''/repo/raw/lock.svg'' None = ''lock.svg''"
  "basename ''/repo/raw/nav/Arrow.SVG'' None = ''Arrow.SVG''"
  "basename ''/repo/raw/icon.SVG'' None = ''icon.SVG''"
  "basename ''/repo/raw/lock.svg'' (Some ''.svg'') = ''lock''"
  "basename ''/repo/raw/nav/Arrow.SVG'' (Some ''.svg'') = ''Arrow.SVG''"
  "basename ''/repo/raw/icon.SVG'' (Some ''.svg'') = ''icon.SVG''"
  "basename ''icon.SVG'' (Some ''.svg'') = ''icon.SVG''"
  "basename ''/repo/optimized/Arrow.SVG'' (Some ''.svg'') = ''Arrow.SVG''"
  by code_simp+

lemma manifest_upper:
  "manifest [''/repo/raw/icon.SVG''] =
     ''{'' @ [CHR 0x0A] @ ''  '' @ [CHR 0x22] @ ''icons'' @ [CHR 0x22] @ '': ['' @ [CHR 0x0A]
       @ ''    '' @ [CHR 0x22] @ ''icon.SVG'' @ [CHR 0x22, CHR 0x0A] @ ''  ]'' @ [CHR 0x0A] @ ''}''"
  by code_simp

lemma manifest_empty:
  "manifest [] = ''{'' @ [CHR 0x0A] @ ''  '' @ [CHR 0x22] @ ''icons'' @ [CHR 0x22] @ '': []''
       @ [CHR 0x0A] @ ''}''"
  by code_simp

lemma file_ok_engine:
  assumes "contents env p = Inr content"
      and "engine env content (optimizeSvg_config (basename p None)) = Inr out"
      and "write_fault env (outputPath env p) = None"
  shows "file_ok env p" "optimizedSvg_of env p = out"
  using assms by (simp_all add: file_ok_def optimizedSvg_of_def transformed_def optimizeSvg_def)

lemma demo_discovered:
  "getSvgFiles (RAW_DIR demo_env) (raw_tree demo_env)
     = Inr [''/repo/raw/lock.svg'', ''/repo/raw/nav/Arrow.SVG'']"
  "discovered demo_env = [''/repo/raw/lock.svg'', ''/repo/raw/nav/Arrow.SVG'']"
  by (simp_all add: discovered_def repo_paths demo_files del: getSvgFiles.simps)

lemma demo_run_ok: "run_ok demo_env"
  using demo_discovered
  by (simp add: run_ok_def file_ok_def transformed_def optimizeSvg_def optimizedSvg_of_def
        del: getSvgFiles.simps)

lemma upper_discovered:
  "getSvgFiles (RAW_DIR upper_env) (raw_tree upper_env) = Inr [''/repo/raw/icon.SVG'']"
  "discovered upper_env = [''/repo/raw/icon.SVG'']"
  by (simp_all add: discovered_def repo_paths upper_files del: getSvgFiles.simps)

lemma upper_run_ok: "run_ok upper_env"
  using upper_discovered
  by (simp add: run_ok_def file_ok_def transformed_def optimizeSvg_def optimizedSvg_of_def
        del: getSvgFiles.simps)

lemma demo_outputs:
  "outputPath demo_env ''/repo/raw/lock.svg'' = ''/repo/optimized/lock.svg''"
  "outputPath demo_env ''/repo/raw/nav/Arrow.SVG'' = ''/repo/optimized/Arrow.SVG''"
  "optimizedSvg_of demo_env ''/repo/raw/lock.svg'' = ''<!--lock.svg--><svg><path/></svg>''"
  "optimizedSvg_of demo_env ''/repo/raw/nav/Arrow.SVG'' = ''<!--Arrow.SVG--><svg><path/></svg>''"
  using repo_paths [of demo_env, simplified]
  by (simp_all add: outputPath_def path_join_def demo_basenames optimizedSvg_of_def
        transformed_def optimizeSvg_def optimizeSvg_config_def)

lemma demo_run:
  "fst (processFiles demo_env fresh) = 0"
  "new_events fresh (snd (processFiles demo_env fresh)) =
     [Access ''/repo/optimized'', Mkdir ''/repo/optimized'', Readdir ''/repo/raw'',
      Log (Found 2),
      ReadFile ''/repo/raw/lock.svg'', Optimize ''lock.svg'',
      WriteFile ''/repo/optimized/lock.svg'' ''<!--lock.svg--><svg><path/></svg>'',
      Log (Optimized ''lock.svg''),
      ReadFile ''/repo/raw/nav/Arrow.SVG'', Optimize ''Arrow.SVG'',
      WriteFile ''/repo/optimized/Arrow.SVG'' ''<!--Arrow.SVG--><svg><path/></svg>'',
      Log (Optimized ''Arrow.SVG''),
      Log (Complete 2),
      WriteFile ''/repo/optimized/manifest.json''
        (manifest [''/repo/raw/lock.svg'', ''/repo/raw/nav/Arrow.SVG'']),
      Log (ManifestCreated ''/repo/optimized/manifest.json'')]"
proof -
  note p = repo_paths [of demo_env, simplified]
  note e = ensure_fresh [of demo_env, simplified, unfolded p]
  from processFiles_ok [OF e(1) demo_run_ok]
  show "fst (processFiles demo_env fresh) = 0" by simp
  from processFiles_ok [OF e(1) demo_run_ok]
  show "new_events fresh (snd (processFiles demo_env fresh)) =
     [Access ''/repo/optimized'', Mkdir ''/repo/optimized'', Readdir ''/repo/raw'',
      Log (Found 2),
      ReadFile ''/repo/raw/lock.svg'', Optimize ''lock.svg'',
      WriteFile ''/repo/optimized/lock.svg'' ''<!--lock.svg--><svg><path/></svg>'',
      Log (Optimized ''lock.svg''),
      ReadFile ''/repo/raw/nav/Arrow.SVG'', Optimize ''Arrow.SVG'',
      WriteFile ''/repo/optimized/Arrow.SVG'' ''<!--Arrow.SVG--><svg><path/></svg>'',
      Log (Optimized ''Arrow.SVG''),
      Log (Complete 2),
      WriteFile ''/repo/optimized/manifest.json''
        (manifest [''/repo/raw/lock.svg'', ''/repo/raw/nav/Arrow.SVG'']),
      Log (ManifestCreated ''/repo/optimized/manifest.json'')]"
    by (simp add: new_events_def e p script_def demo_discovered file_events_def
          demo_outputs demo_basenames)
qed

lemma path_config [simp]: "path (optimizeSvg_config filename) = filename"
  by (simp add: optimizeSvg_config_def)

lemma unreadable_env_fields [simp]:
  "cwd unreadable_env = ''/repo''" "raw_tree unreadable_env = demo_tree"
  "contents unreadable_env p =
     (if p = ''/repo/raw/nav/Arrow.SVG'' then Inl EACCES else Inr ''<svg><path/></svg>'')"
  "engine unreadable_env svgContent cfg = Inr (''<!--'' @ path cfg @ ''-->'' @ svgContent)"
  "access_fault unreadable_env p = None" "mkdir_fault unreadable_env p = None"
  "write_fault unreadable_env p = None"
  by (simp_all add: unreadable_env_def)

lemma full_env_fields [simp]:
  "cwd full_env = ''/repo''" "raw_tree full_env = demo_tree"
  "contents full_env p = Inr ''<svg><path/></svg>''"
  "engine full_env svgContent cfg = Inr (''<!--'' @ path cfg @ ''-->'' @ svgContent)"
  "access_fault full_env p = None" "mkdir_fault full_env p = None"
  "write_fault full_env p = (if p = ''/repo/optimized/Arrow.SVG'' then Some ENOSPC else None)"
  by (simp_all add: full_env_def)

lemma locked_env_fields [simp]:
  "cwd locked_env = ''/repo''" "raw_tree locked_env = demo_tree"
  "contents locked_env p = Inr ''<svg><path/></svg>''"
  "engine locked_env svgContent cfg = Inr (''<!--'' @ path cfg @ ''-->'' @ svgContent)"
  "access_fault locked_env p = None" "mkdir_fault locked_env p = None"
  "write_fault locked_env p =
     (if p = ''/repo/optimized/manifest.json'' then Some EACCES else None)"
  by (simp_all add: locked_env_def)

lemma no_mkdir_env_fields [simp]:
  "cwd no_mkdir_env = ''/repo''" "access_fault no_mkdir_env p = None"
  "mkdir_fault no_mkdir_env p = Some EACCES"
  by (simp_all add: no_mkdir_env_def)

lemma repo_files:
  assumes "cwd env = ''/repo''" "raw_tree env = demo_tree"
  shows "getSvgFiles (RAW_DIR env) (raw_tree env)
           = Inr [''/repo/raw/lock.svg'', ''/repo/raw/nav/Arrow.SVG'']"
    and "discovered env = [''/repo/raw/lock.svg'', ''/repo/raw/nav/Arrow.SVG'']"
  using assms by (simp_all add: discovered_def repo_paths demo_files del: getSvgFiles.simps)

lemma repo_outputs:
  assumes "cwd env = ''/repo''"
  shows "outputPath env ''/repo/raw/lock.svg'' = ''/repo/optimized/lock.svg''"
    and "outputPath env ''/repo/raw/nav/Arrow.SVG'' = ''/repo/optimized/Arrow.SVG''"
  using repo_paths [OF assms]
  by (simp_all add: outputPath_def path_join_def demo_basenames)

lemma file_stop_ok:
  assumes "contents env p = Inr content"
      and "engine env content (optimizeSvg_config (basename p None)) = Inr out"
      and "write_fault env (outputPath env p) = None"
  shows "file_stop env p = None"
    and "file_events env p (optimizedSvg_of env p) =
           [ReadFile p, Optimize (basename p None), WriteFile (outputPath env p) out,
            Log (Optimized (basename p None))]"
  using assms
  by (simp_all add: file_stop_def file_events_def optimizedSvg_of_def transformed_def
        optimizeSvg_def)

lemma lock_ok:
  assumes "cwd env = ''/repo''"
      and "contents env ''/repo/raw/lock.svg'' = Inr ''<svg><path/></svg>''"
      and "engine env ''<svg><path/></svg>'' (optimizeSvg_config ''lock.svg'') = Inr out"
      and "write_fault env ''/repo/optimized/lock.svg'' = None"
  shows "file_stop env ''/repo/raw/lock.svg'' = None"
    and "loop_events env [''/repo/raw/lock.svg''] =
           [ReadFile ''/repo/raw/lock.svg'', Optimize ''lock.svg'',
            WriteFile ''/repo/optimized/lock.svg'' out, Log (Optimized ''lock.svg'')]"
  using file_stop_ok [of env "''/repo/raw/lock.svg''" "''<svg><path/></svg>''" out]
    assms(2-4) repo_outputs(1) [OF assms(1)]
  by (simp_all add: demo_basenames)

lemma fresh_no_probe: "\<not> probe_ok env p fresh"
  by (simp add: probe_ok_def)

section \<open>The claims\<close>

text \<open>
  Claim C1. For every filename, the configuration that \<open>optimizeSvg\<close> builds depends on
  the filename alone. Its steps are, in this order, preset-default with empty overrides,
  prefixIds, removeXMLNS, sortAttrs and addAttributesToSVGElement with the attributes
  aria-hidden = true, width = 24, height = 24, fill = currentColor; its multipass flag is
  true; and the engine is called with exactly this configuration.
\<close>

theorem optimizeSvg_config_steps:
  "map plugin_name (plugins (optimizeSvg_config filename)) =
     [''preset-default'', ''prefixIds'', ''removeXMLNS'', ''sortAttrs'',
      ''addAttributesToSVGElement'']
   \<and> map plugin_params (plugins (optimizeSvg_config filename)) =
     [[(''overrides'', JObject [])],
      [(''prefix'', JString (basename filename (Some ''.svg'') @ ''-''))],
      [], [],
      [(''attributes'',
        JArray [JObject [(''aria-hidden'', JString ''true'')],
                JObject [(''width'', JString ''24'')],
                JObject [(''height'', JString ''24'')],
                JObject [(''fill'', JString ''currentColor'')]])]]
   \<and> multipass (optimizeSvg_config filename) = True
   \<and> path (optimizeSvg_config filename) = filename
   \<and> optimizeSvg env svgContent filename =
       (case engine env svgContent (optimizeSvg_config filename) of
          Inl msg \<Rightarrow> Inl (TransformError msg)
        | Inr data \<Rightarrow> Inr data)"
  by (simp add: optimizeSvg_config_def optimizeSvg_def)

text \<open>
  Claim C2 states that the prefixIds prefix of every processed file is its stem, the
  filename without its extension, followed by \<^verbatim>\<open>-\<close>. The code at the file
  \<^verbatim>\<open>icon.SVG\<close>: discovery accepts it, its base name is \<^verbatim>\<open>icon.SVG\<close>, and the
  prefix is \<^verbatim>\<open>icon.SVG-\<close>, extension included, where the stem gives \<^verbatim>\<open>icon-\<close>.
  (For a name that ends in the lower-case \<^verbatim>\<open>.svg\<close> the prefix is the stem and
  \<^verbatim>\<open>-\<close>: lemma \<open>prefix_lowercase_svg\<close>.)
\<close>

theorem prefix_keeps_uppercase_extension:
  "getSvgFiles ''/repo/raw'' (Entries [File ''icon.SVG'']) = Inr [''/repo/raw/icon.SVG'']
   \<and> basename ''/repo/raw/icon.SVG'' None = ''icon.SVG''
   \<and> map plugin_params (plugins (optimizeSvg_config ''icon.SVG'')) ! 1
       = [(''prefix'', JString ''icon.SVG-'')]"
  by (simp add: upper_files demo_basenames optimizeSvg_config_def del: getSvgFiles.simps)

text \<open>
  Claim C3. The first error at any stage ends the run, with exit code 1 and without a
  manifest. Stage by stage: when the creation of the destination directory fails, when
  discovery fails, when the read, the engine or the write fails on a file whose
  predecessors all succeeded, and when the manifest write fails, the run consists of
  exactly the events up to and including the failing call, the report of that call's
  error and the exit, and the manifest file is what it was: nothing is retried, skipped
  or continued. In particular, if the engine throws on any discovered file, the exit
  code is 1 and no manifest write is even attempted. The exit code is 0 only if no
  stage fails.
\<close>

theorem first_error_aborts:
  assumes "processFiles env w = (code, w')"
  shows "(\<forall>err. \<not> probe_ok env (OPTIMIZED_DIR env) w
              \<and> mkdir_fault env (OPTIMIZED_DIR env) = Some err \<longrightarrow>
            aborted env w code w'
              [Access (OPTIMIZED_DIR env), Mkdir (OPTIMIZED_DIR env)] (FsError err))
       \<and> (ensure_ok env w \<longrightarrow>
            (\<forall>err. getSvgFiles (RAW_DIR env) (raw_tree env) = Inl err \<longrightarrow>
               aborted env w code w' (ensure_events env w @ [Readdir (RAW_DIR env)]) (FsError err))
          \<and> (\<forall>done filePath rest evs e.
               getSvgFiles (RAW_DIR env) (raw_tree env) = Inr (done @ filePath # rest)
               \<and> (\<forall>p\<in>set done. file_stop env p = None)
               \<and> file_stop env filePath = Some (evs, e) \<longrightarrow>
               aborted env w code w'
                 (ensure_events env w
                  @ [Readdir (RAW_DIR env), Log (Found (length (done @ filePath # rest)))]
                  @ loop_events env done @ evs) e)
          \<and> (\<forall>allSvgFiles err.
               getSvgFiles (RAW_DIR env) (raw_tree env) = Inr allSvgFiles
               \<and> (\<forall>p\<in>set allSvgFiles. file_stop env p = None)
               \<and> write_fault env (manifestPath env) = Some err \<longrightarrow>
               aborted env w code w'
                 (ensure_events env w
                  @ [Readdir (RAW_DIR env), Log (Found (length allSvgFiles))]
                  @ loop_events env allSvgFiles
                  @ [Log (Complete (length allSvgFiles)),
                     WriteFile (manifestPath env) (manifest allSvgFiles)])
                 (FsError err)))
       \<and> (\<forall>allSvgFiles filePath content msg.
            getSvgFiles (RAW_DIR env) (raw_tree env) = Inr allSvgFiles
            \<and> filePath \<in> set allSvgFiles
            \<and> contents env filePath = Inr content
            \<and> engine env content (optimizeSvg_config (basename filePath None)) = Inl msg \<longrightarrow>
            code = 1
            \<and> disk w' (manifestPath env) = disk w (manifestPath env)
            \<and> manifestPath env \<notin> fst ` set (writes (new_events w w')))
       \<and> (code = 0 \<longleftrightarrow>
            ensure_ok env w
            \<and> (\<exists>allSvgFiles. getSvgFiles (RAW_DIR env) (raw_tree env) = Inr allSvgFiles
                 \<and> (\<forall>p\<in>set allSvgFiles. file_stop env p = None)
                 \<and> write_fault env (manifestPath env) = None))
       \<and> (code = 0 \<or> code = 1)"
proof (intro conjI allI impI)
  fix err
  assume "\<not> probe_ok env (OPTIMIZED_DIR env) w \<and> mkdir_fault env (OPTIMIZED_DIR env) = Some err"
  then show "aborted env w code w'
              [Access (OPTIMIZED_DIR env), Mkdir (OPTIMIZED_DIR env)] (FsError err)"
    using aborted_mkdir [OF assms] by blast
next
  fix err
  assume "ensure_ok env w" "getSvgFiles (RAW_DIR env) (raw_tree env) = Inl err"
  then show "aborted env w code w' (ensure_events env w @ [Readdir (RAW_DIR env)]) (FsError err)"
    by (rule aborted_discovery [OF assms])
next
  fix "done" filePath rest evs e
  assume "ensure_ok env w"
    and "getSvgFiles (RAW_DIR env) (raw_tree env) = Inr (done @ filePath # rest)
               \<and> (\<forall>p\<in>set done. file_stop env p = None)
               \<and> file_stop env filePath = Some (evs, e)"
  then show "aborted env w code w'
                 (ensure_events env w
                  @ [Readdir (RAW_DIR env), Log (Found (length (done @ filePath # rest)))]
                  @ loop_events env done @ evs) e"
    using aborted_file [OF assms] by blast
next
  fix allSvgFiles err
  assume "ensure_ok env w"
    and "getSvgFiles (RAW_DIR env) (raw_tree env) = Inr allSvgFiles
               \<and> (\<forall>p\<in>set allSvgFiles. file_stop env p = None)
               \<and> write_fault env (manifestPath env) = Some err"
  then show "aborted env w code w'
                 (ensure_events env w
                  @ [Readdir (RAW_DIR env), Log (Found (length allSvgFiles))]
                  @ loop_events env allSvgFiles
                  @ [Log (Complete (length allSvgFiles)),
                     WriteFile (manifestPath env) (manifest allSvgFiles)])
                 (FsError err)"
    using aborted_manifest [OF assms] by blast
next
  fix allSvgFiles filePath content msg
  assume a: "getSvgFiles (RAW_DIR env) (raw_tree env) = Inr allSvgFiles
            \<and> filePath \<in> set allSvgFiles
            \<and> contents env filePath = Inr content
            \<and> engine env content (optimizeSvg_config (basename filePath None)) = Inl msg"
  have r: "code = 1
       \<and> disk w' (manifestPath env) = disk w (manifestPath env)
       \<and> manifestPath env \<notin> fst ` set (writes (new_events w w'))"
    using engine_throw_run [OF _ _ _ _ assms] a by blast
  from r show "code = 1" by blast
  from r show "disk w' (manifestPath env) = disk w (manifestPath env)" by blast
  from r show "manifestPath env \<notin> fst ` set (writes (new_events w w'))" by blast
next
  show "code = 0 \<longleftrightarrow>
            ensure_ok env w
            \<and> (\<exists>allSvgFiles. getSvgFiles (RAW_DIR env) (raw_tree env) = Inr allSvgFiles
                 \<and> (\<forall>p\<in>set allSvgFiles. file_stop env p = None)
                 \<and> write_fault env (manifestPath env) = None)"
    using exit_code(1) [OF assms] by (simp only: run_ok_iff)
next
  show "code = 0 \<or> code = 1" by (rule exit_code(2) [OF assms])
qed

theorem first_error_aborts_witness:
  "fst (processFiles no_mkdir_env fresh) = 1
   \<and> new_events fresh (snd (processFiles no_mkdir_env fresh)) =
       [Access ''/repo/optimized'', Mkdir ''/repo/optimized'',
        ConsoleError (FsError EACCES), Exit 1]
   \<and> fst (processFiles no_raw_env fresh) = 1
   \<and> new_events fresh (snd (processFiles no_raw_env fresh)) =
       [Access ''/repo/optimized'', Mkdir ''/repo/optimized'', Readdir ''/repo/raw'',
        ConsoleError (FsError ENOENT), Exit 1]
   \<and> fst (processFiles unreadable_env fresh) = 1
   \<and> new_events fresh (snd (processFiles unreadable_env fresh)) =
       [Access ''/repo/optimized'', Mkdir ''/repo/optimized'', Readdir ''/repo/raw'',
        Log (Found 2),
        ReadFile ''/repo/raw/lock.svg'', Optimize ''lock.svg'',
        WriteFile ''/repo/optimized/lock.svg'' ''<!--lock.svg--><svg><path/></svg>'',
        Log (Optimized ''lock.svg''),
        ReadFile ''/repo/raw/nav/Arrow.SVG'',
        ConsoleError (FsError EACCES), Exit 1]
   \<and> fst (processFiles broken_env fresh) = 1
   \<and> new_events fresh (snd (processFiles broken_env fresh)) =
       [Access ''/repo/optimized'', Mkdir ''/repo/optimized'', Readdir ''/repo/raw'',
        Log (Found 2),
        ReadFile ''/repo/raw/lock.svg'', Optimize ''lock.svg'',
        WriteFile ''/repo/optimized/lock.svg'' ''<svg><path/></svg>'',
        Log (Optimized ''lock.svg''),
        ReadFile ''/repo/raw/nav/Arrow.SVG'', Optimize ''Arrow.SVG'',
        ConsoleError (TransformError ''malformed''), Exit 1]
   \<and> manifestPath broken_env
        \<notin> fst ` set (writes (new_events fresh (snd (processFiles broken_env fresh))))
   \<and> disk (snd (processFiles broken_env fresh)) (manifestPath broken_env) = None
   \<and> fst (processFiles full_env fresh) = 1
   \<and> new_events fresh (snd (processFiles full_env fresh)) =
       [Access ''/repo/optimized'', Mkdir ''/repo/optimized'', Readdir ''/repo/raw'',
        Log (Found 2),
        ReadFile ''/repo/raw/lock.svg'', Optimize ''lock.svg'',
        WriteFile ''/repo/optimized/lock.svg'' ''<!--lock.svg--><svg><path/></svg>'',
        Log (Optimized ''lock.svg''),
        ReadFile ''/repo/raw/nav/Arrow.SVG'', Optimize ''Arrow.SVG'',
        WriteFile ''/repo/optimized/Arrow.SVG'' ''<!--Arrow.SVG--><svg><path/></svg>'',
        ConsoleError (FsError ENOSPC), Exit 1]
   \<and> fst (processFiles locked_env fresh) = 1
   \<and> new_events fresh (snd (processFiles locked_env fresh)) =
       [Access ''/repo/optimized'', Mkdir ''/repo/optimized'', Readdir ''/repo/raw'',
        Log (Found 2),
        ReadFile ''/repo/raw/lock.svg'', Optimize ''lock.svg'',
        WriteFile ''/repo/optimized/lock.svg'' ''<!--lock.svg--><svg><path/></svg>'',
        Log (Optimized ''lock.svg''),
        ReadFile ''/repo/raw/nav/Arrow.SVG'', Optimize ''Arrow.SVG'',
        WriteFile ''/repo/optimized/Arrow.SVG'' ''<!--Arrow.SVG--><svg><path/></svg>'',
        Log (Optimized ''Arrow.SVG''),
        Log (Complete 2),
        WriteFile ''/repo/optimized/manifest.json''
          (manifest [''/repo/raw/lock.svg'', ''/repo/raw/nav/Arrow.SVG'']),
        ConsoleError (FsError EACCES), Exit 1]
   \<and> disk (snd (processFiles locked_env fresh)) ''/repo/optimized/manifest.json'' = None
   \<and> fst (processFiles demo_env fresh) = 0"
proof -
  let ?lock = "''/repo/raw/lock.svg''" and ?arrow = "''/repo/raw/nav/Arrow.SVG''"
  have split: "[?lock, ?arrow] = [?lock] @ ?arrow # []" by simp
  have r: "processFiles env fresh = (fst (processFiles env fresh), snd (processFiles env fresh))"
    for env by simp
  note t = first_error_aborts [OF r]
  note mkdir = t [THEN conjunct1, rule_format]
  note later = t [THEN conjunct2, THEN conjunct1, rule_format]
  note throw = t [THEN conjunct2, THEN conjunct2, THEN conjunct1, rule_format]
  note zero = t [THEN conjunct2, THEN conjunct2, THEN conjunct2, THEN conjunct1]

  have 1: "aborted no_mkdir_env fresh (fst (processFiles no_mkdir_env fresh))
             (snd (processFiles no_mkdir_env fresh))
             [Access ''/repo/optimized'', Mkdir ''/repo/optimized''] (FsError EACCES)"
    using mkdir [of no_mkdir_env EACCES] fresh_no_probe [of no_mkdir_env]
    by (simp add: repo_paths)

  have e2: "ensure_ok no_raw_env fresh"
    "ensure_events no_raw_env fresh = [Access ''/repo/optimized'', Mkdir ''/repo/optimized'']"
    using ensure_fresh [of no_raw_env] by (simp_all add: repo_paths)
  have 2: "aborted no_raw_env fresh (fst (processFiles no_raw_env fresh))
             (snd (processFiles no_raw_env fresh))
             [Access ''/repo/optimized'', Mkdir ''/repo/optimized'', Readdir ''/repo/raw'']
             (FsError ENOENT)"
    using later [OF e2(1), THEN conjunct1, rule_format, of ENOENT]
    by (simp add: e2(2) repo_paths)

  have e3: "ensure_ok unreadable_env fresh"
    "ensure_events unreadable_env fresh = [Access ''/repo/optimized'', Mkdir ''/repo/optimized'']"
    using ensure_fresh [of unreadable_env] by (simp_all add: repo_paths)
  have g3: "getSvgFiles (RAW_DIR unreadable_env) (raw_tree unreadable_env)
              = Inr ([?lock] @ ?arrow # [])"
    using repo_files(1) [of unreadable_env] by simp
  note l3 = lock_ok [of unreadable_env "''<!--lock.svg--><svg><path/></svg>''", simplified]
  have s3: "file_stop unreadable_env ?arrow = Some ([ReadFile ?arrow], FsError EACCES)"
    by (simp add: file_stop_def)
  have 3: "aborted unreadable_env fresh (fst (processFiles unreadable_env fresh))
             (snd (processFiles unreadable_env fresh))
             [Access ''/repo/optimized'', Mkdir ''/repo/optimized'', Readdir ''/repo/raw'',
              Log (Found 2),
              ReadFile ?lock, Optimize ''lock.svg'',
              WriteFile ''/repo/optimized/lock.svg'' ''<!--lock.svg--><svg><path/></svg>'',
              Log (Optimized ''lock.svg''),
              ReadFile ?arrow]
             (FsError EACCES)"
    using later [OF e3(1), THEN conjunct2, THEN conjunct1, rule_format,
        of "[?lock]" ?arrow "[]" "[ReadFile ?arrow]" "FsError EACCES"] g3 l3 s3
    by (simp add: e3(2) repo_paths numeral_2_eq_2)

  have e4: "ensure_ok broken_env fresh"
    "ensure_events broken_env fresh = [Access ''/repo/optimized'', Mkdir ''/repo/optimized'']"
    using ensure_fresh [of broken_env] by (simp_all add: repo_paths)
  have g4: "getSvgFiles (RAW_DIR broken_env) (raw_tree broken_env)
              = Inr ([?lock] @ ?arrow # [])"
    using repo_files(1) [of broken_env] by simp
  note l4 = lock_ok [of broken_env "''<svg><path/></svg>''", simplified]
  have s4: "file_stop broken_env ?arrow =
              Some ([ReadFile ?arrow, Optimize ''Arrow.SVG''], TransformError ''malformed'')"
    by (simp add: file_stop_def demo_basenames)
  have 4: "aborted broken_env fresh (fst (processFiles broken_env fresh))
             (snd (processFiles broken_env fresh))
             [Access ''/repo/optimized'', Mkdir ''/repo/optimized'', Readdir ''/repo/raw'',
              Log (Found 2),
              ReadFile ?lock, Optimize ''lock.svg'',
              WriteFile ''/repo/optimized/lock.svg'' ''<svg><path/></svg>'',
              Log (Optimized ''lock.svg''),
              ReadFile ?arrow, Optimize ''Arrow.SVG'']
             (TransformError ''malformed'')"
    using later [OF e4(1), THEN conjunct2, THEN conjunct1, rule_format,
        of "[?lock]" ?arrow "[]" "[ReadFile ?arrow, Optimize ''Arrow.SVG'']"
           "TransformError ''malformed''"] g4 l4 s4
    by (simp add: e4(2) repo_paths numeral_2_eq_2)
  have h4: "manifestPath broken_env
        \<notin> fst ` set (writes (new_events fresh (snd (processFiles broken_env fresh))))"
    using throw [of broken_env "[?lock, ?arrow]" ?arrow "''<svg><path/></svg>''" "''malformed''"]
        repo_files(1) [of broken_env]
    by (simp add: demo_basenames del: getSvgFiles.simps)

  have e5: "ensure_ok full_env fresh"
    "ensure_events full_env fresh = [Access ''/repo/optimized'', Mkdir ''/repo/optimized'']"
    using ensure_fresh [of full_env] by (simp_all add: repo_paths)
  have g5: "getSvgFiles (RAW_DIR full_env) (raw_tree full_env)
              = Inr ([?lock] @ ?arrow # [])"
    using repo_files(1) [of full_env] by simp
  note l5 = lock_ok [of full_env "''<!--lock.svg--><svg><path/></svg>''", simplified]
  have s5: "file_stop full_env ?arrow =
              Some ([ReadFile ?arrow, Optimize ''Arrow.SVG'',
                     WriteFile ''/repo/optimized/Arrow.SVG'' ''<!--Arrow.SVG--><svg><path/></svg>''],
                    FsError ENOSPC)"
    by (simp add: file_stop_def demo_basenames repo_outputs)
  have 5: "aborted full_env fresh (fst (processFiles full_env fresh))
             (snd (processFiles full_env fresh))
             [Access ''/repo/optimized'', Mkdir ''/repo/optimized'', Readdir ''/repo/raw'',
              Log (Found 2),
              ReadFile ?lock, Optimize ''lock.svg'',
              WriteFile ''/repo/optimized/lock.svg'' ''<!--lock.svg--><svg><path/></svg>'',
              Log (Optimized ''lock.svg''),
              ReadFile ?arrow, Optimize ''Arrow.SVG'',
              WriteFile ''/repo/optimized/Arrow.SVG'' ''<!--Arrow.SVG--><svg><path/></svg>'']
             (FsError ENOSPC)"
    using later [OF e5(1), THEN conjunct2, THEN conjunct1, rule_format,
        of "[?lock]" ?arrow "[]" _ "FsError ENOSPC"] g5 l5 s5
    by (simp add: e5(2) repo_paths numeral_2_eq_2)

  have e6: "ensure_ok locked_env fresh"
    "ensure_events locked_env fresh = [Access ''/repo/optimized'', Mkdir ''/repo/optimized'']"
    using ensure_fresh [of locked_env] by (simp_all add: repo_paths)
  note o6 = repo_outputs [of locked_env, simplified]
  note f6 = file_stop_ok [of locked_env ?lock "''<svg><path/></svg>''"
      "''<!--lock.svg--><svg><path/></svg>''", unfolded o6 demo_basenames, simplified]
    file_stop_ok [of locked_env ?arrow "''<svg><path/></svg>''"
      "''<!--Arrow.SVG--><svg><path/></svg>''", unfolded o6 demo_basenames, simplified]
  have 6: "aborted locked_env fresh (fst (processFiles locked_env fresh))
             (snd (processFiles locked_env fresh))
             [Access ''/repo/optimized'', Mkdir ''/repo/optimized'', Readdir ''/repo/raw'',
              Log (Found 2),
              ReadFile ?lock, Optimize ''lock.svg'',
              WriteFile ''/repo/optimized/lock.svg'' ''<!--lock.svg--><svg><path/></svg>'',
              Log (Optimized ''lock.svg''),
              ReadFile ?arrow, Optimize ''Arrow.SVG'',
              WriteFile ''/repo/optimized/Arrow.SVG'' ''<!--Arrow.SVG--><svg><path/></svg>'',
              Log (Optimized ''Arrow.SVG''),
              Log (Complete 2),
              WriteFile ''/repo/optimized/manifest.json'' (manifest [?lock, ?arrow])]
             (FsError EACCES)"
    using later [OF e6(1), THEN conjunct2, THEN conjunct2, rule_format,
        of "[?lock, ?arrow]" EACCES] repo_files(1) [of locked_env] f6
    by (simp add: e6(2) repo_paths numeral_2_eq_2 del: getSvgFiles.simps)

  have e7: "ensure_ok demo_env fresh" using ensure_fresh [of demo_env] by simp
  note o7 = repo_outputs [of demo_env, simplified]
  note f7 = file_stop_ok(1) [of demo_env ?lock "''<svg><path/></svg>''"
      "''<!--lock.svg--><svg><path/></svg>''", unfolded o7 demo_basenames, simplified]
    file_stop_ok(1) [of demo_env ?arrow "''<svg><path/></svg>''"
      "''<!--Arrow.SVG--><svg><path/></svg>''", unfolded o7 demo_basenames, simplified]
  have 7: "fst (processFiles demo_env fresh) = 0"
    using zero [of demo_env] e7 repo_files(1) [of demo_env] f7
    by (simp del: getSvgFiles.simps)

  from 1 2 3 4 5 6 h4 7 show ?thesis
    by (simp add: aborted_def repo_paths)
qed

text \<open>
  Claim C4 states that the manifest of a successful run lists the extension-stripped
  base names of the processed files. The code on the source tree with the single file
  \<^verbatim>\<open>icon.SVG\<close>: the run succeeds and writes the manifest, in the 2-space layout, with
  the entry \<^verbatim>\<open>icon.SVG\<close>, extension included, where the stem is \<^verbatim>\<open>icon\<close>.
  (For names that end in the lower-case \<^verbatim>\<open>.svg\<close> the entries are the stems: lemma
  \<open>basename_lowercase_svg\<close>; the manifest of the empty tree is lemma \<open>manifest_empty\<close>.)
\<close>

theorem manifest_keeps_uppercase_extension:
  "fst (processFiles upper_env fresh) = 0
   \<and> disk (snd (processFiles upper_env fresh)) ''/repo/optimized/manifest.json''
       = Some (manifest [''/repo/raw/icon.SVG''])
   \<and> iconNames [''/repo/raw/icon.SVG''] = [''icon.SVG'']
   \<and> manifest [''/repo/raw/icon.SVG''] =
       ''{'' @ [CHR 0x0A] @ ''  '' @ [CHR 0x22] @ ''icons'' @ [CHR 0x22] @ '': ['' @ [CHR 0x0A]
       @ ''    '' @ [CHR 0x22] @ ''icon.SVG'' @ [CHR 0x22, CHR 0x0A] @ ''  ]'' @ [CHR 0x0A] @ ''}''"
proof -
  note p = repo_paths [of upper_env, simplified]
  note e = ensure_fresh [of upper_env, simplified, unfolded p]
  from processFiles_ok [OF e(1) upper_run_ok]
  have "fst (processFiles upper_env fresh) = 0"
    and "disk (snd (processFiles upper_env fresh)) ''/repo/optimized/manifest.json''
       = Some (manifest [''/repo/raw/icon.SVG''])"
    by (simp_all add: p upper_discovered)
  moreover have "iconNames [''/repo/raw/icon.SVG''] = [''icon.SVG'']"
    by (simp add: iconNames_def demo_basenames)
  ultimately show ?thesis using manifest_upper by blast
qed

text \<open>
  Claim C5. In every run that writes a manifest, the manifest is the one of the
  discovered files, and every entry of its list belongs to a file written in the same
  run: the entry at position \<open>i\<close> is the base name, without \<^verbatim>\<open>.svg\<close>, of the
  destination path of the \<open>i\<close>-th discovered file; that path was written with the
  file's optimised text; and a file exists there when the run ends.
\<close>

theorem manifest_entries_written:
  assumes "processFiles env w = (code, w')"
      and "(manifestPath env, m) \<in> set (writes (new_events w w'))"
  shows "\<exists>allSvgFiles. getSvgFiles (RAW_DIR env) (raw_tree env) = Inr allSvgFiles
           \<and> m = manifest allSvgFiles
           \<and> (\<forall>i<length allSvgFiles.
                 iconNames allSvgFiles ! i
                   = basename (outputPath env (allSvgFiles ! i)) (Some ''.svg'')
               \<and> (outputPath env (allSvgFiles ! i), optimizedSvg_of env (allSvgFiles ! i))
                   \<in> set (writes (new_events w w'))
               \<and> disk w' (outputPath env (allSvgFiles ! i)) \<noteq> None)"
proof -
  let ?ps = "discovered env"
  have entries: "\<forall>i<length ?ps.
                 iconNames ?ps ! i = basename (outputPath env (?ps ! i)) (Some ''.svg'')
               \<and> (outputPath env (?ps ! i), optimizedSvg_of env (?ps ! i))
                   \<in> set (writes (new_events w w'))
               \<and> disk w' (outputPath env (?ps ! i)) \<noteq> None"
    if sub: "set (writes (loop_events env ?ps)) \<subseteq> set (writes (new_events w w'))"
      and dk: "\<And>q. q \<noteq> manifestPath env \<Longrightarrow> disk w' q = loop_disk env ?ps (disk w) q"
  proof (intro allI impI)
    fix i assume "i < length ?ps"
    then have p: "?ps ! i \<in> set ?ps" by simp
    from discovered_basename [OF p]
    have 1: "iconNames ?ps ! i = basename (outputPath env (?ps ! i)) (Some ''.svg'')"
      using \<open>i < length ?ps\<close> by (auto simp: iconNames_def)
    have "(outputPath env (?ps ! i), optimizedSvg_of env (?ps ! i))
            \<in> set (writes (loop_events env ?ps))"
      using p by (simp add: writes_loop_events)
    with sub have 2: "(outputPath env (?ps ! i), optimizedSvg_of env (?ps ! i))
            \<in> set (writes (new_events w w'))" by blast
    have "disk w' (outputPath env (?ps ! i)) = loop_disk env ?ps (disk w) (outputPath env (?ps ! i))"
      using outputPath_not_manifest [OF p] by (rule dk)
    then have 3: "disk w' (outputPath env (?ps ! i)) \<noteq> None"
      using loop_disk_written [OF p] by simp
    from 1 2 3 show "iconNames ?ps ! i = basename (outputPath env (?ps ! i)) (Some ''.svg'')
               \<and> (outputPath env (?ps ! i), optimizedSvg_of env (?ps ! i))
                   \<in> set (writes (new_events w w'))
               \<and> disk w' (outputPath env (?ps ! i)) \<noteq> None"
      by blast
  qed
  from assms(1) show ?thesis
  proof (cases rule: processFiles_cases)
    case ok
    then have g: "getSvgFiles (RAW_DIR env) (raw_tree env) = Inr ?ps"
      by (cases "getSvgFiles (RAW_DIR env) (raw_tree env)") (auto simp: run_ok_def discovered_def)
    have wr: "writes (new_events w w') =
                writes (loop_events env ?ps) @ [(manifestPath env, manifest ?ps)]"
      using ok(4) by (simp add: script_Cons)
    then have m: "m = manifest ?ps"
      using assms(2) manifest_not_in_loop_all [of env m] by auto
    have "set (writes (loop_events env ?ps)) \<subseteq> set (writes (new_events w w'))"
      using wr by auto
    moreover have "\<And>q. q \<noteq> manifestPath env \<Longrightarrow> disk w' q = loop_disk env ?ps (disk w) q"
      using ok(5) by simp
    ultimately show ?thesis using entries g m by blast
  next
    case (ensure_fail e)
    with assms(2) show ?thesis by simp
  next
    case (run_fail e k)
    show ?thesis
    proof (cases "getSvgFiles (RAW_DIR env) (raw_tree env)")
      case (Inl err)
      then have "k = 1" using run_fail(4) by (simp add: fails_at_def)
      with run_fail assms(2) show ?thesis by (simp add: take_script_1)
    next
      case (Inr ps)
      then have d: "?ps = ps" by (simp add: discovered_def)
      show ?thesis
      proof (cases "list_all (file_ok env) ps")
        case False
        then have k: "2 < k" "k < 2 + length (loop_events env ?ps)"
          using run_fail(4) Inr d by (simp_all add: fails_at_def)
        from take_script_loop [OF k] run_fail(6) assms(2)
        have "(manifestPath env, m) \<in> set (writes (take (k - 2) (loop_events env ?ps)))"
          by simp
        with manifest_not_in_loop show ?thesis by blast
      next
        case True
        then have k: "k = length (loop_events env ?ps) + 4"
          using run_fail(4) Inr d by (simp add: fails_at_def)
        have wr: "writes (new_events w w') =
                writes (loop_events env ?ps) @ [(manifestPath env, manifest ?ps)]"
          using run_fail(6) by (simp add: k take_script_manifest_write)
        then have m: "m = manifest ?ps"
          using assms(2) manifest_not_in_loop_all [of env m] by auto
        have tw: "takeWhile (file_ok env) ?ps = ?ps"
          using True d by (simp add: list_all_iff)
        have "set (writes (loop_events env ?ps)) \<subseteq> set (writes (new_events w w'))"
          using wr by auto
        moreover have "\<And>q. q \<noteq> manifestPath env \<Longrightarrow> disk w' q = loop_disk env ?ps (disk w) q"
          using run_fail(7) tw by simp
        ultimately show ?thesis using entries Inr d m by blast
      qed
    qed
  qed
qed

theorem manifest_entries_written_witness:
  "(manifestPath demo_env, manifest [''/repo/raw/lock.svg'', ''/repo/raw/nav/Arrow.SVG''])
     \<in> set (writes (new_events fresh (snd (processFiles demo_env fresh))))
   \<and> iconNames [''/repo/raw/lock.svg'', ''/repo/raw/nav/Arrow.SVG''] ! 1
       = basename (outputPath demo_env ''/repo/raw/nav/Arrow.SVG'') (Some ''.svg'')
   \<and> (outputPath demo_env ''/repo/raw/nav/Arrow.SVG'',
       optimizedSvg_of demo_env ''/repo/raw/nav/Arrow.SVG'')
       \<in> set (writes (new_events fresh (snd (processFiles demo_env fresh))))
   \<and> disk (snd (processFiles demo_env fresh)) (outputPath demo_env ''/repo/raw/nav/Arrow.SVG'')
       \<noteq> None
   \<and> outputPath demo_env ''/repo/raw/nav/Arrow.SVG'' = ''/repo/optimized/Arrow.SVG''
   \<and> iconNames [''/repo/raw/lock.svg'', ''/repo/raw/nav/Arrow.SVG''] = [''lock'', ''Arrow.SVG'']"
proof -
  let ?ps = "[''/repo/raw/lock.svg'', ''/repo/raw/nav/Arrow.SVG'']"
  note p = repo_paths [of demo_env, simplified]
  have r: "processFiles demo_env fresh
             = (fst (processFiles demo_env fresh), snd (processFiles demo_env fresh))"
    by simp
  have m: "(manifestPath demo_env, manifest ?ps)
     \<in> set (writes (new_events fresh (snd (processFiles demo_env fresh))))"
    by (simp add: demo_run(2) p)
  from manifest_entries_written [OF r m] obtain allSvgFiles
    where g: "getSvgFiles (RAW_DIR demo_env) (raw_tree demo_env) = Inr allSvgFiles"
      and a: "\<forall>i<length allSvgFiles.
                 iconNames allSvgFiles ! i
                   = basename (outputPath demo_env (allSvgFiles ! i)) (Some ''.svg'')
               \<and> (outputPath demo_env (allSvgFiles ! i), optimizedSvg_of demo_env (allSvgFiles ! i))
                   \<in> set (writes (new_events fresh (snd (processFiles demo_env fresh))))
               \<and> disk (snd (processFiles demo_env fresh)) (outputPath demo_env (allSvgFiles ! i)) \<noteq> None"
    by blast
  have n: "?ps ! 1 = ''/repo/raw/nav/Arrow.SVG''" by simp
  from g demo_discovered(1) have ps: "allSvgFiles = ?ps" by simp
  then have "1 < length allSvgFiles" by simp
  with a have "iconNames allSvgFiles ! 1
                   = basename (outputPath demo_env (allSvgFiles ! 1)) (Some ''.svg'')
               \<and> (outputPath demo_env (allSvgFiles ! 1), optimizedSvg_of demo_env (allSvgFiles ! 1))
                   \<in> set (writes (new_events fresh (snd (processFiles demo_env fresh))))
               \<and> disk (snd (processFiles demo_env fresh)) (outputPath demo_env (allSvgFiles ! 1)) \<noteq> None"
    by blast
  then have "iconNames ?ps ! 1
       = basename (outputPath demo_env ''/repo/raw/nav/Arrow.SVG'') (Some ''.svg'')
   \<and> (outputPath demo_env ''/repo/raw/nav/Arrow.SVG'',
       optimizedSvg_of demo_env ''/repo/raw/nav/Arrow.SVG'')
       \<in> set (writes (new_events fresh (snd (processFiles demo_env fresh))))
   \<and> disk (snd (processFiles demo_env fresh)) (outputPath demo_env ''/repo/raw/nav/Arrow.SVG'')
       \<noteq> None"
    unfolding ps n .
  moreover have "iconNames ?ps = [''lock'', ''Arrow.SVG'']"
    by (simp add: iconNames_def demo_basenames)
  ultimately show ?thesis using m demo_outputs(2) by blast
qed

text \<open>
  Claim C6, amended. Every run follows the sequence of stages: ensure the destination
  directory, discover, report the count, process each file in discovery order and
  report it, report the completion count, write the manifest, report the manifest path.
  A run in which no stage fails is exactly this sequence and ends with exit code 0. A
  run in which a stage fails consists of the events up to and including the first
  failing call, a proper, non-empty initial part of the sequence, followed directly by
  the error report and exit code 1. So the summary line with the count comes after the
  last file and before the manifest write, not after it.
\<close>

theorem run_follows_stages:
  assumes "processFiles env w = (code, w')"
  shows "let allSvgFiles = discovered env;
             planned = ensure_events env w
               @ [Readdir (RAW_DIR env), Log (Found (length allSvgFiles))]
               @ loop_events env allSvgFiles
               @ [Log (Complete (length allSvgFiles)),
                  WriteFile (manifestPath env) (manifest allSvgFiles),
                  Log (ManifestCreated (manifestPath env))]
         in case follow (stages env w) of
              (evs, None) \<Rightarrow>
                code = 0 \<and> new_events w w' = evs \<and> evs = planned
                \<and> getSvgFiles (RAW_DIR env) (raw_tree env) = Inr allSvgFiles
            | (evs, Some e) \<Rightarrow>
                code = 1 \<and> new_events w w' = evs @ [ConsoleError e, Exit 1]
                \<and> (\<exists>k. 0 < k \<and> k < length planned \<and> evs = take k planned)"
proof -
  have planned: "ensure_events env w
               @ [Readdir (RAW_DIR env), Log (Found (length (discovered env)))]
               @ loop_events env (discovered env)
               @ [Log (Complete (length (discovered env))),
                  WriteFile (manifestPath env) (manifest (discovered env)),
                  Log (ManifestCreated (manifestPath env))]
           = ensure_events env w @ script env"
    by (simp add: script_def)
  obtain evs r where f: "follow (stages env w) = (evs, r)" by (cases "follow (stages env w)")
  have ne: "evs \<noteq> []" using follow_stages_nonempty [of env w] f by simp
  note st = run_stages [OF assms, unfolded f, simplified]
  note pre = run_prefix_of_plan [OF assms]
  have "case (evs, r) of
              (evs, None) \<Rightarrow>
                code = 0 \<and> new_events w w' = evs \<and> evs = ensure_events env w @ script env
                \<and> getSvgFiles (RAW_DIR env) (raw_tree env) = Inr (discovered env)
            | (evs, Some e) \<Rightarrow>
                code = 1 \<and> new_events w w' = evs @ [ConsoleError e, Exit 1]
                \<and> (\<exists>k. 0 < k \<and> k < length (ensure_events env w @ script env)
                       \<and> evs = take k (ensure_events env w @ script env))"
  proof (cases r)
    case None
    with st have "code = 0" "new_events w w' = evs" by simp_all
    with pre None show ?thesis by auto
  next
    case (Some e)
    with st have c: "code = 1" "new_events w w' = evs @ [ConsoleError e, Exit 1]" by simp_all
    with pre obtain k e' where k: "k < length (ensure_events env w @ script env)"
      "evs @ [ConsoleError e, Exit 1] =
         take k (ensure_events env w @ script env) @ [ConsoleError e', Exit 1]"
      by auto
    from k(2) have eq: "evs = take k (ensure_events env w @ script env)" by simp
    with ne have "0 < k" by (cases k) auto
    with k(1) eq c Some show ?thesis by auto
  qed
  then show ?thesis unfolding Let_def planned f .
qed

theorem run_follows_stages_witness:
  "follow (stages demo_env fresh) =
     ([Access ''/repo/optimized'', Mkdir ''/repo/optimized'', Readdir ''/repo/raw'',
       Log (Found 2),
       ReadFile ''/repo/raw/lock.svg'', Optimize ''lock.svg'',
       WriteFile ''/repo/optimized/lock.svg'' ''<!--lock.svg--><svg><path/></svg>'',
       Log (Optimized ''lock.svg''),
       ReadFile ''/repo/raw/nav/Arrow.SVG'', Optimize ''Arrow.SVG'',
       WriteFile ''/repo/optimized/Arrow.SVG'' ''<!--Arrow.SVG--><svg><path/></svg>'',
       Log (Optimized ''Arrow.SVG''),
       Log (Complete 2),
       WriteFile ''/repo/optimized/manifest.json''
         (manifest [''/repo/raw/lock.svg'', ''/repo/raw/nav/Arrow.SVG'']),
       Log (ManifestCreated ''/repo/optimized/manifest.json'')], None)
   \<and> fst (processFiles demo_env fresh) = 0
   \<and> new_events fresh (snd (processFiles demo_env fresh)) = fst (follow (stages demo_env fresh))
   \<and> follow (stages unreadable_env fresh) =
     ([Access ''/repo/optimized'', Mkdir ''/repo/optimized'', Readdir ''/repo/raw'',
       Log (Found 2),
       ReadFile ''/repo/raw/lock.svg'', Optimize ''lock.svg'',
       WriteFile ''/repo/optimized/lock.svg'' ''<!--lock.svg--><svg><path/></svg>'',
       Log (Optimized ''lock.svg''),
       ReadFile ''/repo/raw/nav/Arrow.SVG''], Some (FsError EACCES))
   \<and> fst (processFiles unreadable_env fresh) = 1
   \<and> new_events fresh (snd (processFiles unreadable_env fresh)) =
       fst (follow (stages unreadable_env fresh)) @ [ConsoleError (FsError EACCES), Exit 1]"
proof -
  let ?lock = "''/repo/raw/lock.svg''" and ?arrow = "''/repo/raw/nav/Arrow.SVG''"
  have r: "processFiles env fresh = (fst (processFiles env fresh), snd (processFiles env fresh))"
    for env by simp
  note o1 = repo_outputs [of demo_env, simplified]
  note f1 = file_stop_ok [of demo_env ?lock "''<svg><path/></svg>''"
      "''<!--lock.svg--><svg><path/></svg>''", unfolded o1 demo_basenames, simplified]
    file_stop_ok [of demo_env ?arrow "''<svg><path/></svg>''"
      "''<!--Arrow.SVG--><svg><path/></svg>''", unfolded o1 demo_basenames, simplified]
  have s1: "follow (stages demo_env fresh) =
     ([Access ''/repo/optimized'', Mkdir ''/repo/optimized'', Readdir ''/repo/raw'',
       Log (Found 2),
       ReadFile ?lock, Optimize ''lock.svg'',
       WriteFile ''/repo/optimized/lock.svg'' ''<!--lock.svg--><svg><path/></svg>'',
       Log (Optimized ''lock.svg''),
       ReadFile ?arrow, Optimize ''Arrow.SVG'',
       WriteFile ''/repo/optimized/Arrow.SVG'' ''<!--Arrow.SVG--><svg><path/></svg>'',
       Log (Optimized ''Arrow.SVG''),
       Log (Complete 2),
       WriteFile ''/repo/optimized/manifest.json'' (manifest [?lock, ?arrow]),
       Log (ManifestCreated ''/repo/optimized/manifest.json'')], None)"
    using ensure_fresh [of demo_env] repo_files [of demo_env] f1
    by (simp add: stages_def ensure_error_def discovery_error_def file_stage_def
          fresh_no_probe repo_paths del: getSvgFiles.simps)
  note o2 = repo_outputs [of unreadable_env, simplified]
  note f2 = file_stop_ok [of unreadable_env ?lock "''<svg><path/></svg>''"
      "''<!--lock.svg--><svg><path/></svg>''", unfolded o2 demo_basenames, simplified]
  have a2: "file_stop unreadable_env ?arrow = Some ([ReadFile ?arrow], FsError EACCES)"
    by (simp add: file_stop_def)
  have s2: "follow (stages unreadable_env fresh) =
     ([Access ''/repo/optimized'', Mkdir ''/repo/optimized'', Readdir ''/repo/raw'',
       Log (Found 2),
       ReadFile ?lock, Optimize ''lock.svg'',
       WriteFile ''/repo/optimized/lock.svg'' ''<!--lock.svg--><svg><path/></svg>'',
       Log (Optimized ''lock.svg''),
       ReadFile ?arrow], Some (FsError EACCES))"
    using ensure_fresh [of unreadable_env] repo_files [of unreadable_env] f2 a2
    by (simp add: stages_def ensure_error_def discovery_error_def file_stage_def
          fresh_no_probe repo_paths del: getSvgFiles.simps)
  from run_follows_stages [OF r, of demo_env, unfolded Let_def s1]
  have 1: "fst (processFiles demo_env fresh) = 0"
    "new_events fresh (snd (processFiles demo_env fresh)) = fst (follow (stages demo_env fresh))"
    by (simp_all add: s1)
  from run_follows_stages [OF r, of unreadable_env, unfolded Let_def s2]
  have 2: "fst (processFiles unreadable_env fresh) = 1"
    "new_events fresh (snd (processFiles unreadable_env fresh)) =
       fst (follow (stages unreadable_env fresh)) @ [ConsoleError (FsError EACCES), Exit 1]"
    by (simp_all add: s2)
  from s1 s2 1 2 show ?thesis by blast
qed

text \<open>
  Claim C6 as stated fails: on the empty source tree the run succeeds, and the
  completion line is the fifth event, before the manifest write; no completion line
  follows the manifest write.
\<close>

theorem summary_precedes_manifest:
  "fst (processFiles empty_env fresh) = 0
   \<and> new_events fresh (snd (processFiles empty_env fresh)) =
       [Access ''/repo/optimized'', Mkdir ''/repo/optimized'',
        Readdir ''/repo/raw'', Log (Found 0), Log (Complete 0),
        WriteFile ''/repo/optimized/manifest.json'' (manifest []),
        Log (ManifestCreated ''/repo/optimized/manifest.json'')]
   \<and> \<not> summary_after_manifest empty_env (new_events fresh (snd (processFiles empty_env fresh)))"
proof -
  note p = repo_paths [of empty_env, simplified]
  show ?thesis
    by (simp add: empty_run new_events_def summary_after_manifest_def p)
qed

text \<open>
  Claim C7. \<open>getSvgFiles\<close> is the depth-first walker of the specification: it returns,
  in traversal order, the paths of the files whose name has the extension \<^verbatim>\<open>.svg\<close>
  in any case; its test on the path is that test on the name (\<^verbatim>\<open>.svg\<close>,
  \<^verbatim>\<open>.SVG\<close> and \<^verbatim>\<open>.Svg\<close> match). In a run, before any file is read, optimised
  or written, discovery has returned the whole list and its length has been reported.
\<close>

theorem discovery_depth_first_svg:
  "getSvgFiles dir l = discover dir l
   \<and> (endsWith (toLowerCase (path_resolve dir name)) ''.svg'' \<longleftrightarrow> svg_name name)
   \<and> svg_name ''a.svg'' \<and> svg_name ''a.SVG'' \<and> svg_name ''a.Svg'' \<and> \<not> svg_name ''a.png''
   \<and> (processFiles env w = (code, w') \<longrightarrow> list_ex is_processing (new_events w w') \<longrightarrow>
        (\<exists>before after.
            new_events w w' = before @ Log (Found (length (discovered env))) # after
          \<and> \<not> list_ex is_processing before
          \<and> getSvgFiles (RAW_DIR env) (raw_tree env) = Inr (discovered env)))"
proof (intro conjI impI)
  show "getSvgFiles dir l = discover dir l"
    by (simp only: getSvgFiles_walk_aux(1) discover_walk(1))
  show "endsWith (toLowerCase (path_resolve dir name)) ''.svg'' \<longleftrightarrow> svg_name name"
    by (rule svg_path_resolve)
  show "svg_name ''a.svg''" "svg_name ''a.SVG''" "svg_name ''a.Svg''" "\<not> svg_name ''a.png''"
    by (simp_all add: svg_name_def)
  assume run: "processFiles env w = (code, w')"
    and p: "list_ex is_processing (new_events w w')"
  let ?goal = "\<exists>before after.
            new_events w w' = before @ Log (Found (length (discovered env))) # after
          \<and> \<not> list_ex is_processing before
          \<and> getSvgFiles (RAW_DIR env) (raw_tree env) = Inr (discovered env)"
  have found: ?goal
    if "new_events w w' = ensure_events env w @ Readdir (RAW_DIR env)
          # Log (Found (length (discovered env))) # rest"
      and "\<not> isl (getSvgFiles (RAW_DIR env) (raw_tree env))" for rest
  proof -
    have "getSvgFiles (RAW_DIR env) (raw_tree env) = Inr (discovered env)"
      using that(2)
      by (cases "getSvgFiles (RAW_DIR env) (raw_tree env)") (auto simp: discovered_def)
    moreover have "new_events w w' = (ensure_events env w @ [Readdir (RAW_DIR env)])
             @ Log (Found (length (discovered env))) # rest"
      using that(1) by simp
    moreover have "\<not> list_ex is_processing (ensure_events env w @ [Readdir (RAW_DIR env)])"
      by simp
    ultimately show ?thesis by blast
  qed
  from run show ?goal
  proof (cases rule: processFiles_cases)
    case ok
    then show ?thesis by (intro found) (simp_all add: script_Cons run_ok_def)
  next
    case (ensure_fail e)
    with p show ?thesis by simp
  next
    case (run_fail e k)
    show ?thesis
    proof (cases "getSvgFiles (RAW_DIR env) (raw_tree env)")
      case (Inl err)
      then have "k = 1" using run_fail(4) by (simp add: fails_at_def)
      with run_fail p show ?thesis by (simp add: take_script_1)
    next
      case (Inr ps)
      then have "2 \<le> k" using run_fail(4) by (auto simp: fails_at_def split: if_splits)
      from take_script_ge2 [OF this] run_fail(6) Inr show ?thesis
        by (intro found) simp_all
    qed
  qed
qed

theorem discovery_depth_first_svg_witness:
  "getSvgFiles ''/repo/raw'' demo_tree = discover ''/repo/raw'' demo_tree
   \<and> discover ''/repo/raw'' demo_tree = Inr [''/repo/raw/lock.svg'', ''/repo/raw/nav/Arrow.SVG'']
   \<and> endsWith (toLowerCase (path_resolve ''/repo/raw'' ''Arrow.SVG'')) ''.svg''
   \<and> svg_name ''Arrow.SVG''
   \<and> list_ex is_processing (new_events fresh (snd (processFiles demo_env fresh)))
   \<and> (\<exists>before after.
          new_events fresh (snd (processFiles demo_env fresh))
            = before @ Log (Found (length (discovered demo_env))) # after
        \<and> \<not> list_ex is_processing before
        \<and> getSvgFiles (RAW_DIR demo_env) (raw_tree demo_env) = Inr (discovered demo_env))"
proof -
  have r: "processFiles demo_env fresh
             = (fst (processFiles demo_env fresh), snd (processFiles demo_env fresh))"
    by simp
  have p: "list_ex is_processing (new_events fresh (snd (processFiles demo_env fresh)))"
    by (simp add: demo_run(2))
  have s: "svg_name ''Arrow.SVG''" by (simp add: svg_name_def)
  note t = discovery_depth_first_svg [where dir = "''/repo/raw''" and l = demo_tree
      and name = "''Arrow.SVG''" and env = demo_env and w = fresh
      and code = "fst (processFiles demo_env fresh)"
      and w' = "snd (processFiles demo_env fresh)"]
  from t have 1: "getSvgFiles ''/repo/raw'' demo_tree = discover ''/repo/raw'' demo_tree" by blast
  then have 2: "discover ''/repo/raw'' demo_tree
                  = Inr [''/repo/raw/lock.svg'', ''/repo/raw/nav/Arrow.SVG'']"
    using demo_files by simp
  from t s have 3: "endsWith (toLowerCase (path_resolve ''/repo/raw'' ''Arrow.SVG'')) ''.svg''"
    by blast
  from t r p have 4: "\<exists>before after.
          new_events fresh (snd (processFiles demo_env fresh))
            = before @ Log (Found (length (discovered demo_env))) # after
        \<and> \<not> list_ex is_processing before
        \<and> getSvgFiles (RAW_DIR demo_env) (raw_tree demo_env) = Inr (discovered demo_env)"
    by blast
  from 1 2 3 s p 4 show ?thesis by blast
qed

text \<open>
  Claim C8. If the source root does not exist, the run ends with exit code 1, no file
  is written, and the files on the destination side are what they were.
\<close>

theorem missing_source_root:
  assumes "raw_tree env = ReaddirError ENOENT"
      and "processFiles env w = (code, w')"
  shows "code = 1 \<and> disk w' = disk w \<and> writes (new_events w w') = []"
proof -
  have g: "getSvgFiles (RAW_DIR env) (raw_tree env) = Inl ENOENT"
    using assms(1) by simp
  note f = discovery_fails [OF g]
  from assms(2) show ?thesis
  proof (cases rule: processFiles_cases)
    case ok
    with f(1) show ?thesis by simp
  next
    case (ensure_fail e)
    then show ?thesis by simp
  next
    case (run_fail e k)
    then have "k = 1" using f(3) by simp
    with run_fail f(2) show ?thesis by (simp add: take_script_1)
  qed
qed

theorem missing_source_root_witness:
  "raw_tree no_raw_env = ReaddirError ENOENT
   \<and> fst (processFiles no_raw_env fresh) = 1
   \<and> disk (snd (processFiles no_raw_env fresh)) = disk fresh
   \<and> writes (new_events fresh (snd (processFiles no_raw_env fresh))) = []"
proof -
  have h: "raw_tree no_raw_env = ReaddirError ENOENT" by simp
  have r: "processFiles no_raw_env fresh
             = (fst (processFiles no_raw_env fresh), snd (processFiles no_raw_env fresh))"
    by simp
  from missing_source_root [OF h r] h show ?thesis by blast
qed

text \<open>
  Claim C9. Running the script again in the same surroundings (the same source tree,
  the same engine) on the state the first run left gives the same exit code, issues
  the same writes and leaves the same files and directories.
\<close>

theorem rerun_idempotent:
  assumes "processFiles env w = (code1, w1)" and "processFiles env w1 = (code2, w2)"
  shows "code2 = code1 \<and> disk w2 = disk w1 \<and> dirs w2 = dirs w1
       \<and> writes (new_events w1 w2) = writes (new_events w w1)"
proof (cases "ensure_ok env w")
  case False
  from processFiles_ensure_fail [OF False] assms(1) obtain e
    where 1: "code1 = 1"
      "w1 = w\<lparr>trace := trace w @ ensure_events env w @ [ConsoleError (FsError e), Exit 1]\<rparr>"
    by auto
  have "\<not> ensure_ok env w1"
    using False 1(2) by (simp add: ensure_ok_def probe_ok_def)
  from processFiles_ensure_fail [OF this] assms(2) obtain e'
    where 2: "code2 = 1"
      "w2 = w1\<lparr>trace := trace w1 @ ensure_events env w1 @ [ConsoleError (FsError e'), Exit 1]\<rparr>"
    by auto
  show ?thesis using 1 2 by (simp add: new_events_def)
next
  case True
  show ?thesis
  proof (cases "run_ok env")
    case ok: True
    let ?L = "loop_disk env (discovered env) Map.empty"
    from processFiles_ok [OF True ok] assms(1)
    have 1: "code1 = 0" "dirs w1 = ensure_dirs env w"
      "disk w1 = (loop_disk env (discovered env) (disk w))
                   (manifestPath env \<mapsto> manifest (discovered env))"
      "new_events w w1 = ensure_events env w @ script env"
      by (auto simp: new_events_def)
    have "dom (disk w) \<subseteq> dom (disk w1)" using 1(3) by (auto simp: dom_loop_disk)
    note again = ensure_again [OF True 1(2) this]
    from processFiles_ok [OF again(1) ok] assms(2)
    have 2: "code2 = 0" "dirs w2 = ensure_dirs env w1"
      "disk w2 = (loop_disk env (discovered env) (disk w1))
                   (manifestPath env \<mapsto> manifest (discovered env))"
      "new_events w1 w2 = ensure_events env w1 @ script env"
      by (auto simp: new_events_def)
    have "disk w1 = (disk w ++ ?L)(manifestPath env \<mapsto> manifest (discovered env))"
      using 1(3) loop_disk_add [of env "discovered env" "disk w"] by simp
    moreover have "disk w2 = (disk w1 ++ ?L)(manifestPath env \<mapsto> manifest (discovered env))"
      using 2(3) loop_disk_add [of env "discovered env" "disk w1"] by simp
    ultimately have "disk w2 = disk w1" by (simp only: map_add_upd_twice)
    then show ?thesis using 1 2 again by simp
  next
    case nr: False
    let ?L = "loop_disk env (takeWhile (file_ok env) (discovered env)) Map.empty"
    from processFiles_run_fail [OF nr] obtain e k
      where eq: "\<And>w. ensure_ok env w \<Longrightarrow>
       processFiles env w =
         (1, w\<lparr>dirs := ensure_dirs env w,
               disk := loop_disk env (takeWhile (file_ok env) (discovered env)) (disk w),
               trace := trace w @ ensure_events env w @ take k (script env)
                          @ [ConsoleError e, Exit 1]\<rparr>)"
      by blast
    from eq [OF True] assms(1)
    have 1: "code1 = 1" "dirs w1 = ensure_dirs env w"
      "disk w1 = loop_disk env (takeWhile (file_ok env) (discovered env)) (disk w)"
      "new_events w w1 = ensure_events env w @ take k (script env) @ [ConsoleError e, Exit 1]"
      by (auto simp: new_events_def)
    have "dom (disk w) \<subseteq> dom (disk w1)" using 1(3) by (auto simp: dom_loop_disk)
    note again = ensure_again [OF True 1(2) this]
    from eq [OF again(1)] assms(2)
    have 2: "code2 = 1" "dirs w2 = ensure_dirs env w1"
      "disk w2 = loop_disk env (takeWhile (file_ok env) (discovered env)) (disk w1)"
      "new_events w1 w2 = ensure_events env w1 @ take k (script env) @ [ConsoleError e, Exit 1]"
      by (auto simp: new_events_def)
    have "disk w1 = disk w ++ ?L"
      using 1(3) loop_disk_add [of env _ "disk w"] by simp
    moreover have "disk w2 = disk w1 ++ ?L"
      using 2(3) loop_disk_add [of env _ "disk w1"] by simp
    ultimately have "disk w2 = disk w1" by (simp only: map_add_twice)
    then show ?thesis using 1 2 again by simp
  qed
qed

theorem rerun_idempotent_witness:
  "fst (processFiles demo_env fresh) = 0
   \<and> fst (processFiles demo_env (snd (processFiles demo_env fresh))) = fst (processFiles demo_env fresh)
   \<and> disk (snd (processFiles demo_env (snd (processFiles demo_env fresh))))
       = disk (snd (processFiles demo_env fresh))
   \<and> dirs (snd (processFiles demo_env (snd (processFiles demo_env fresh))))
       = dirs (snd (processFiles demo_env fresh))
   \<and> writes (new_events (snd (processFiles demo_env fresh))
               (snd (processFiles demo_env (snd (processFiles demo_env fresh)))))
       = writes (new_events fresh (snd (processFiles demo_env fresh)))"
proof -
  note p = repo_paths [of demo_env, simplified]
  note e = ensure_fresh [of demo_env, simplified, unfolded p]
  from processFiles_ok [OF e(1) demo_run_ok]
  have c: "fst (processFiles demo_env fresh) = 0" by simp
  have r1: "processFiles demo_env fresh
             = (fst (processFiles demo_env fresh), snd (processFiles demo_env fresh))"
    by simp
  have r2: "processFiles demo_env (snd (processFiles demo_env fresh))
             = (fst (processFiles demo_env (snd (processFiles demo_env fresh))),
                snd (processFiles demo_env (snd (processFiles demo_env fresh))))"
    by simp
  from rerun_idempotent [OF r1 r2] c show ?thesis by blast
qed

text \<open>
  Claim C10. Whatever error the probe of \<open>ensureDir\<close> fails with, the directory creation
  follows. In every run the events of \<open>ensureDir\<close> come first, and discovery starts
  only if it succeeded. When discovery fails, the run ends with exit code 1, writes
  nothing, leaves the files as they were, and at most adds the destination directory.
\<close>

theorem ensureDir_before_discovery:
  assumes "processFiles env w = (code, w')"
  shows "(\<forall>e w1. fs_access env dir w = (Inl e, w1) \<longrightarrow> ensureDir env dir w = fs_mkdir env dir w1)
       \<and> (\<exists>rest. new_events w w' = ensure_events env w @ rest
            \<and> (if ensure_ok env w then \<exists>later. rest = Readdir (RAW_DIR env) # later
                else \<exists>e. rest = [ConsoleError (FsError e), Exit 1]))
       \<and> (isl (getSvgFiles (RAW_DIR env) (raw_tree env)) \<longrightarrow>
             code = 1 \<and> disk w' = disk w \<and> writes (new_events w w') = []
           \<and> (dirs w' = dirs w \<or> dirs w' = insert (OPTIMIZED_DIR env) (dirs w)))"
proof (intro conjI)
  show "\<forall>e w1. fs_access env dir w = (Inl e, w1) \<longrightarrow> ensureDir env dir w = fs_mkdir env dir w1"
    by (simp add: ensureDir_def)
  from assms show "\<exists>rest. new_events w w' = ensure_events env w @ rest
            \<and> (if ensure_ok env w then \<exists>later. rest = Readdir (RAW_DIR env) # later
                else \<exists>e. rest = [ConsoleError (FsError e), Exit 1])"
  proof (cases rule: processFiles_cases)
    case ok
    then show ?thesis by (simp add: script_Cons)
  next
    case (ensure_fail e)
    then show ?thesis by simp
  next
    case (run_fail e k)
    then have "0 < k" by (auto simp: fails_at_def split: sum.splits if_splits)
    then obtain j where "k = Suc j" by (cases k) auto
    with run_fail show ?thesis by (simp add: script_Cons)
  qed
  show "isl (getSvgFiles (RAW_DIR env) (raw_tree env)) \<longrightarrow>
             code = 1 \<and> disk w' = disk w \<and> writes (new_events w w') = []
           \<and> (dirs w' = dirs w \<or> dirs w' = insert (OPTIMIZED_DIR env) (dirs w))"
  proof
    assume "isl (getSvgFiles (RAW_DIR env) (raw_tree env))"
    then obtain err where g: "getSvgFiles (RAW_DIR env) (raw_tree env) = Inl err"
      by (cases "getSvgFiles (RAW_DIR env) (raw_tree env)") auto
    note f = discovery_fails [OF g]
    from assms show "code = 1 \<and> disk w' = disk w \<and> writes (new_events w w') = []
           \<and> (dirs w' = dirs w \<or> dirs w' = insert (OPTIMIZED_DIR env) (dirs w))"
    proof (cases rule: processFiles_cases)
      case ok
      with f(1) show ?thesis by simp
    next
      case (ensure_fail e)
      then show ?thesis by simp
    next
      case (run_fail e k)
      then have "k = 1" using f(3) by simp
      with run_fail f(2) show ?thesis by (simp add: take_script_1 ensure_dirs_def)
    qed
  qed
qed

theorem ensureDir_before_discovery_witness:
  "fs_access denied_env ''/repo/optimized'' existing
     = (Inl (FsError EACCES), emit (Access ''/repo/optimized'') existing)
   \<and> ensureDir denied_env ''/repo/optimized'' existing
     = fs_mkdir denied_env ''/repo/optimized'' (emit (Access ''/repo/optimized'') existing)
   \<and> isl (getSvgFiles (RAW_DIR denied_env) (raw_tree denied_env))
   \<and> fst (processFiles denied_env existing) = 1
   \<and> disk (snd (processFiles denied_env existing)) = disk existing
   \<and> writes (new_events existing (snd (processFiles denied_env existing))) = []
   \<and> (dirs (snd (processFiles denied_env existing)) = dirs existing
      \<or> dirs (snd (processFiles denied_env existing))
          = insert (OPTIMIZED_DIR denied_env) (dirs existing))"
proof -
  have a: "fs_access denied_env ''/repo/optimized'' existing
     = (Inl (FsError EACCES), emit (Access ''/repo/optimized'') existing)"
    by (simp add: fs_access_def)
  have g: "isl (getSvgFiles (RAW_DIR denied_env) (raw_tree denied_env))" by simp
  have r: "processFiles denied_env existing
             = (fst (processFiles denied_env existing), snd (processFiles denied_env existing))"
    by simp
  from ensureDir_before_discovery [OF r, of "''/repo/optimized''"] a g
  show ?thesis by blast
qed

end
